theory Spec2Isabelle
  imports Main
begin

section \<open>Permission sets and agent sets\<close>

text \<open>
  \<^verbatim>\<open>AclRule.ts\<close> and \<^verbatim>\<open>AclDoc.js\<close> import the classes \<^verbatim>\<open>Permissions\<close> and
  \<^verbatim>\<open>Agents\<close> and the helper \<^verbatim>\<open>iterableEquals\<close>; their files are not part of the
  sources. The specification (sections 3 and 4.1) describes both classes as finite
  sets with one and the same algebraic contract, and that is how they are read here: a
  \<^verbatim>\<open>Permissions\<close> value is a set of permission kinds, an \<^verbatim>\<open>Agents\<close> value is a set of
  agent descriptors. The normalising casts \<^verbatim>\<open>Permissions.from\<close> and \<^verbatim>\<open>Agents.from\<close> are
  the identity on values that are sets already, and every argument below is such a
  value.
\<close>

datatype permission = Read | Write | Append | Control

datatype agent = Public | Authenticated | WebId string | Group string | Origin string

type_synonym Permissions = "permission set"

type_synonym Agents = "agent set"

text \<open>Modelled from the spec: \<^verbatim>\<open>Permissions.equals\<close> (section 4.1, "true iff element
  sets are identical (order irrelevant)"); the file \<^verbatim>\<open>Permissions\<close> is missing.\<close>

definition Permissions_equals :: "Permissions \<Rightarrow> Permissions \<Rightarrow> bool" where
  "Permissions_equals a b = (a = b)"

text \<open>Modelled from the spec: \<^verbatim>\<open>Permissions.isEmpty\<close> (section 4.1, "true iff no
  elements"); the file \<^verbatim>\<open>Permissions\<close> is missing.\<close>

definition Permissions_isEmpty :: "Permissions \<Rightarrow> bool" where
  "Permissions_isEmpty a = (a = {})"

text \<open>Modelled from the spec: \<^verbatim>\<open>Permissions.includes\<close> (section 4.1, "true iff other
  is a subset"); the file \<^verbatim>\<open>Permissions\<close> is missing.\<close>

definition Permissions_includes :: "Permissions \<Rightarrow> Permissions \<Rightarrow> bool" where
  "Permissions_includes a other = (other \<subseteq> a)"

text \<open>Modelled from the spec: \<^verbatim>\<open>Permissions.common\<close> (section 4.1, "set
  intersection"); the file \<^verbatim>\<open>Permissions\<close> is missing.\<close>

definition Permissions_common :: "Permissions \<Rightarrow> Permissions \<Rightarrow> Permissions" where
  "Permissions_common a b = a \<inter> b"

text \<open>Modelled from the spec: \<^verbatim>\<open>Permissions.subtract\<close> (section 4.1, "set difference
  (elements in a not in b)"); the file \<^verbatim>\<open>Permissions\<close> is missing.\<close>

definition Permissions_subtract :: "Permissions \<Rightarrow> Permissions \<Rightarrow> Permissions" where
  "Permissions_subtract a b = a - b"

text \<open>Modelled from the spec: \<^verbatim>\<open>Permissions.merge\<close> (section 4.1, "set union"); the
  file \<^verbatim>\<open>Permissions\<close> is missing.\<close>

definition Permissions_merge :: "Permissions \<Rightarrow> Permissions \<Rightarrow> Permissions" where
  "Permissions_merge a b = a \<union> b"

text \<open>Modelled from the spec: \<^verbatim>\<open>Agents.equals\<close> (section 4.1, same contract as for
  permission sets); the file \<^verbatim>\<open>Agents\<close> is missing.\<close>

definition Agents_equals :: "Agents \<Rightarrow> Agents \<Rightarrow> bool" where
  "Agents_equals a b = (a = b)"

text \<open>Modelled from the spec: \<^verbatim>\<open>Agents.isEmpty\<close> (section 4.1); the file \<^verbatim>\<open>Agents\<close>
  is missing.\<close>

definition Agents_isEmpty :: "Agents \<Rightarrow> bool" where
  "Agents_isEmpty a = (a = {})"

text \<open>Modelled from the spec: \<^verbatim>\<open>Agents.includes\<close> (section 4.1, "true iff other is a
  subset"); the file \<^verbatim>\<open>Agents\<close> is missing.\<close>

definition Agents_includes :: "Agents \<Rightarrow> Agents \<Rightarrow> bool" where
  "Agents_includes a other = (other \<subseteq> a)"

text \<open>Modelled from the spec: \<^verbatim>\<open>Agents.common\<close> (section 4.1, "set intersection");
  the file \<^verbatim>\<open>Agents\<close> is missing.\<close>

definition Agents_common :: "Agents \<Rightarrow> Agents \<Rightarrow> Agents" where
  "Agents_common a b = a \<inter> b"

text \<open>Modelled from the spec: \<^verbatim>\<open>Agents.subtract\<close> (section 4.1, "set difference");
  the file \<^verbatim>\<open>Agents\<close> is missing.\<close>

definition Agents_subtract :: "Agents \<Rightarrow> Agents \<Rightarrow> Agents" where
  "Agents_subtract a b = a - b"

text \<open>Modelled from the spec: \<^verbatim>\<open>Agents.merge\<close> (section 4.1, "set union"); the file
  \<^verbatim>\<open>Agents\<close> is missing.\<close>

definition Agents_merge :: "Agents \<Rightarrow> Agents \<Rightarrow> Agents" where
  "Agents_merge a b = a \<union> b"

text \<open>Modelled from the spec: \<^verbatim>\<open>iterableEquals\<close> of \<^verbatim>\<open>utils\<close> (section 4.2,
  "passthrough (order-sensitive)": same length and equal elements position by
  position); the file \<^verbatim>\<open>utils\<close> is missing.\<close>

definition iterableEquals :: "'a list \<Rightarrow> 'a list \<Rightarrow> bool" where
  "iterableEquals xs ys = (xs = ys)"


section \<open>AclRule.ts\<close>

text \<open>
  The class \<^verbatim>\<open>AclRule\<close> is a record of its six public fields. Quads of the
  library \<^verbatim>\<open>n3\<close> are opaque to the rule algebra, so their type is a parameter.
  An optional string (\<^verbatim>\<open>default?: string\<close>) is an \<open>option\<close>, \<open>None\<close> for
  \<^verbatim>\<open>undefined\<close>.
\<close>

record 'q AclRule =
  permissions :: Permissions
  agents :: Agents
  accessTo :: "string list"
  otherQuads :: "'q list"
  default :: "string option"
  defaultForNew :: "string option"

record 'q AclRuleOptions =
  opt_otherQuads :: "'q list option"
  opt_default :: "string option"
  opt_defaultForNew :: "string option"

text \<open>The constructor's third parameter has the type \<^verbatim>\<open>string[]|string\<close>.\<close>

datatype accessTo_arg = Labels "string list" | Label string

text \<open>
  The constructor: \<^verbatim>\<open>accessTo\<close> defaults to the empty array, \<^verbatim>\<open>options\<close> to the
  empty object; an array is copied, a single string is wrapped; a missing
  \<^verbatim>\<open>otherQuads\<close> option gives the empty list.
\<close>

definition AclRule_new ::
  "Permissions \<Rightarrow> Agents \<Rightarrow> accessTo_arg option \<Rightarrow> 'q AclRuleOptions option \<Rightarrow> 'q AclRule" where
  "AclRule_new perms ags acc options =
     (let accessTo' = (case acc of None \<Rightarrow> Labels [] | Some v \<Rightarrow> v);
          options' = (case options of
                        None \<Rightarrow> \<lparr>opt_otherQuads = None, opt_default = None, opt_defaultForNew = None\<rparr>
                      | Some v \<Rightarrow> v)
      in \<lparr>permissions = perms,
          agents = ags,
          accessTo = (case accessTo' of Labels ls \<Rightarrow> ls | Label l \<Rightarrow> [l]),
          otherQuads = (case opt_otherQuads options' of Some qs \<Rightarrow> qs | None \<Rightarrow> []),
          default = opt_default options',
          defaultForNew = opt_defaultForNew options'\<rparr>)"

definition getOptions :: "'q AclRule \<Rightarrow> 'q AclRuleOptions" where
  "getOptions rule =
     \<lparr>opt_otherQuads = Some (otherQuads rule),
      opt_default = default rule,
      opt_defaultForNew = defaultForNew rule\<rparr>"

definition clone :: "'q AclRule \<Rightarrow> 'q AclRule" where
  "clone this =
     (let options = getOptions this
      in AclRule_new (permissions this) (agents this) (Some (Labels (accessTo this))) (Some options))"

definition equals :: "'q AclRule \<Rightarrow> 'q AclRule \<Rightarrow> bool" where
  "equals this other =
     (iterableEquals (otherQuads this) (otherQuads other) \<and>
      Permissions_equals (permissions this) (permissions other) \<and>
      Agents_equals (agents this) (agents other) \<and>
      default this = default other \<and>
      defaultForNew this = defaultForNew other)"

definition hasNoEffect :: "'q AclRule \<Rightarrow> bool" where
  "hasNoEffect this =
     (length (otherQuads this) = 0 \<and>
      (Permissions_isEmpty (permissions this) \<or>
       Agents_isEmpty (agents this) \<or>
       length (accessTo this) = 0))"

text \<open>The first argument of \<^verbatim>\<open>AclRule.from\<close> is a rule or a permission set.\<close>

datatype 'q firstVal = IsRule "'q AclRule" | IsPermissions Permissions

definition AclRule_from ::
  "'q firstVal \<Rightarrow> Agents \<Rightarrow> accessTo_arg option \<Rightarrow> 'q AclRuleOptions option \<Rightarrow> 'q AclRule" where
  "AclRule_from first_val ags acc options =
     (case first_val of
        IsRule r \<Rightarrow> clone r
      | IsPermissions perms \<Rightarrow> AclRule_new perms ags acc options)"

definition common :: "'q AclRule \<Rightarrow> 'q AclRule \<Rightarrow> 'q AclRule" where
  "common first second =
     (let perms = Permissions_common (permissions first) (permissions second);
          ags = Agents_common (agents first) (agents second);
          acc = filter (\<lambda>val. val \<in> set (accessTo second)) (accessTo first);
          options =
            \<lparr>opt_otherQuads =
               Some (filter (\<lambda>quad. \<exists>otherQuad \<in> set (otherQuads second). quad = otherQuad)
                       (otherQuads first)),
             opt_default = (if default first = default second then default first else None),
             opt_defaultForNew =
               (if defaultForNew first = defaultForNew second then defaultForNew first else None)\<rparr>
      in AclRule_new perms ags (Some (Labels acc)) (Some options))"

text \<open>
  \<^verbatim>\<open>AclRule.subtract\<close>: the piece for the unaffected agents is pushed first, the
  piece for the unaffected permissions of the affected agents second, and the pieces
  without effect are filtered out.
\<close>

definition subtract :: "'q AclRule \<Rightarrow> 'q AclRule \<Rightarrow> 'q AclRule list" where
  "subtract first second =
     (let firstOptions = getOptions first;
          unaffectedAgents = Agents_subtract (agents first) (agents second);
          rules1 = [AclRule_new (permissions first) unaffectedAgents
                      (Some (Labels (accessTo first))) (Some firstOptions)];
          unaffectedPermissions = Permissions_subtract (permissions first) (permissions second);
          commonAgents = Agents_common (agents first) (agents second);
          rules2 = rules1 @ [AclRule_new unaffectedPermissions commonAgents
                      (Some (Labels (accessTo first))) (Some firstOptions)]
      in filter (\<lambda>rule. \<not> hasNoEffect rule) rules2)"


section \<open>JavaScript values used by AclDoc.js\<close>

subsection \<open>Outcomes of a call\<close>

text \<open>
  A call returns a value, throws, or never returns. The code throws in three places:
  \<^verbatim>\<open>_getDefaultAccessTo\<close> throws an \<^verbatim>\<open>Error\<close> when no default target is configured
  (the specification's \<^verbatim>\<open>MissingAccessToError\<close>); \<^verbatim>\<open>Array.prototype.reduce\<close> without an
  initial value throws a \<^verbatim>\<open>TypeError\<close> on an empty array (the specification's
  \<^verbatim>\<open>EmptyReductionError\<close>); and \<^verbatim>\<open>this.rules.hasOwnProperty(...)\<close> throws a
  \<^verbatim>\<open>TypeError\<close> when a rule is stored under the subject id \<^verbatim>\<open>hasOwnProperty\<close>, because
  the property found is then the rule and not the method. A call that never returns has
  the outcome \<open>None\<close>.
\<close>

datatype error = MissingAccessToError | EmptyReductionError | NotAFunctionError

type_synonym 'a outcome = "(error + 'a) option"

text \<open>The rest of a method after a call: it runs when the call returns.\<close>

definition and_then :: "'a outcome \<Rightarrow> ('a \<Rightarrow> 'b outcome) \<Rightarrow> 'b outcome" where
  "and_then m f =
     (case m of
        None \<Rightarrow> None
      | Some (Inl e) \<Rightarrow> Some (Inl e)
      | Some (Inr x) \<Rightarrow> f x)"

text \<open>\<^verbatim>\<open>xs.reduce(f)\<close>, without an initial value.\<close>

fun reduce :: "('a \<Rightarrow> 'a \<Rightarrow> 'a) \<Rightarrow> 'a list \<Rightarrow> error + 'a" where
  "reduce f [] = Inl EmptyReductionError"
| "reduce f (x # xs) = Inr (foldl f x xs)"

subsection \<open>Numbers and their decimal strings\<close>

text \<open>
  \<^verbatim>\<open>_getNewSubjectId\<close> reads a counter out of a string with \<^verbatim>\<open>Number\<close>, increments it
  and appends it to a string. A JavaScript number is a double. The counter is a
  non-negative integer that is a double, or \<^verbatim>\<open>Infinity\<close>. Every integer from 0 to
  \<open>2^53 = 9007199254740992\<close> is a double; a greater integer is rounded to the nearest
  integer with a significand of 53 bits, to the one with the even significand when two
  are equally near, and to \<^verbatim>\<open>Infinity\<close> from \<open>2^1024 - 2^970\<close> on. \<^verbatim>\<open>\d\<close> matches the
  ten ASCII digits.
\<close>

definition is_digit :: "char \<Rightarrow> bool" where
  "is_digit c = (c \<in> set ''0123456789'')"

definition digit_val :: "char \<Rightarrow> nat" where
  "digit_val c = of_char c - 48"

definition digit_char :: "nat \<Rightarrow> char" where
  "digit_char d = ''0123456789'' ! d"

datatype number = Finite nat | Infinity

definition max_exact :: nat where
  "max_exact = 9007199254740992"

fun bit_length :: "nat \<Rightarrow> nat" where
  "bit_length n = (if n = 0 then 0 else 1 + bit_length (n div 2))"

declare bit_length.simps [simp del]

text \<open>The double of an integer: \<open>q\<close> is the integer cut to its leading 53 bits, \<open>r\<close>
  what is cut off, and \<open>half\<close> half a unit of the last of the 53 bits.\<close>

definition round_to_double :: "nat \<Rightarrow> number" where
  "round_to_double n =
     (if n \<le> max_exact then Finite n
      else (let e = bit_length n - 53;
                q = n div 2 ^ e;
                r = n mod 2 ^ e;
                half = 2 ^ (e - 1);
                m = (if half < r \<or> (r = half \<and> odd q) then q + 1 else q)
            in if m * 2 ^ e < 2 ^ 1024 then Finite (m * 2 ^ e) else Infinity))"

text \<open>The number a string of digits writes; the empty string writes 0.\<close>

definition decimal_value :: "string \<Rightarrow> nat" where
  "decimal_value ds = foldl (\<lambda>n c. 10 * n + digit_val c) 0 ds"

text \<open>\<^verbatim>\<open>Number(s)\<close> for a string of digits. (For a string of more than 20 significant
  digits the language lets an implementation round the number that the first 20 digits
  write, up or down, in place of the number that the string writes; the number here is
  the rounded value of the whole string.)\<close>

definition Number :: "string \<Rightarrow> number" where
  "Number ds = round_to_double (decimal_value ds)"

text \<open>\<^verbatim>\<open>index++\<close>: the sum with 1, rounded.\<close>

definition increment :: "number \<Rightarrow> number" where
  "increment index =
     (case index of
        Finite n \<Rightarrow> round_to_double (n + 1)
      | Infinity \<Rightarrow> Infinity)"

text \<open>The decimal numeral of an integer.\<close>

fun decimal :: "nat \<Rightarrow> string" where
  "decimal n =
     (if n < 10 then [digit_char n] else decimal (n div 10) @ [digit_char (n mod 10)])"

declare decimal.simps [simp del]

text \<open>
  The string of a number has as few significant digits as a decimal can have that
  \<^verbatim>\<open>Number\<close> reads back as the same double. \<open>shortest_digits x k\<close> is the integer with
  the fewest significant digits, but at least \<open>k\<close>, whose double is the double \<open>x\<close>: with
  \<open>k\<close> significant digits the candidates are \<open>x\<close> with its later digits cut off and
  the next such integer; of two that fit, the one nearer to \<open>x\<close> is taken, and the one
  with the even last digit when they are equally near.
\<close>

function shortest_digits :: "nat \<Rightarrow> nat \<Rightarrow> nat" where
  "shortest_digits x k =
     (let d = length (decimal x)
      in if d \<le> k then x
         else (let p = 10 ^ (d - k);
                   lo = (x div p) * p;
                   hi = lo + p;
                   lo_fits = (round_to_double lo = Finite x);
                   hi_fits = (round_to_double hi = Finite x)
               in if lo_fits \<and> hi_fits
                  then (if x - lo < hi - x \<or> (x - lo = hi - x \<and> even (x div p))
                        then lo else hi)
                  else if lo_fits then lo
                  else if hi_fits then hi
                  else shortest_digits x (k + 1)))"
  by pat_completeness auto
termination
  by (relation "measure (\<lambda>(x, k). length (decimal x) - k)") auto

declare shortest_digits.simps [simp del]

definition strip_zeros :: "string \<Rightarrow> string" where
  "strip_zeros ds = rev (dropWhile (\<lambda>c. c = CHR ''0'') (rev ds))"

text \<open>
  The string of the counter, as \<^verbatim>\<open>base + index\<close> appends it. Up to \<open>2^53\<close> every
  integer is a double, and the string has all the digits of the number. Above, the
  string has the shortest digits, followed by zeros when the number is below \<open>10^21\<close>,
  and by an exponent from \<open>10^21\<close> on.
\<close>

definition String_of :: "number \<Rightarrow> string" where
  "String_of index =
     (case index of
        Infinity \<Rightarrow> ''Infinity''
      | Finite n \<Rightarrow>
          if n \<le> max_exact then decimal n
          else (let v = decimal (shortest_digits n 1);
                    s = strip_zeros v
                in if length v \<le> 21 then v
                   else if length s = 1 then s @ ''e+'' @ decimal (length v - 1)
                   else hd s # ''.'' @ tl s @ ''e+'' @ decimal (length v - 1)))"

text \<open>\<^verbatim>\<open>s.match(/[\d]*$/)[0]\<close>: the longest run of digits that ends the string.\<close>

definition match_trailing_digits :: "string \<Rightarrow> string" where
  "match_trailing_digits s = rev (takeWhile is_digit (rev s))"

text \<open>\<^verbatim>\<open>s.replace(/[\d]*$/, '')\<close>: the string without that run.\<close>

definition replace_trailing_digits :: "string \<Rightarrow> string" where
  "replace_trailing_digits s = rev (dropWhile is_digit (rev s))"

subsection \<open>Objects as ordered property lists\<close>

text \<open>
  \<^verbatim>\<open>this.rules\<close> is a plain object used as a dictionary from subject ids to rules.
  It is the list of its own properties in the order in which \<^verbatim>\<open>Object.keys\<close>,
  \<^verbatim>\<open>Object.values\<close> and \<^verbatim>\<open>Object.entries\<close> enumerate them: the keys that are array
  indices (the decimal numerals of the numbers below \<open>2^32 - 1 = 4294967295\<close>) in
  ascending numeric order, then every other key in the order of its creation.
\<close>

type_synonym 'v object = "(string \<times> 'v) list"

definition is_array_index :: "string \<Rightarrow> bool" where
  "is_array_index k =
     (k \<noteq> [] \<and> list_all is_digit k \<and> decimal (decimal_value k) = k \<and>
      decimal_value k < 4294967295)"

text \<open>The object has an own property of that name.\<close>

definition own_property :: "'v object \<Rightarrow> string \<Rightarrow> bool" where
  "own_property obj k = (map_of obj k \<noteq> None)"

text \<open>
  \<^verbatim>\<open>obj.hasOwnProperty(k)\<close>: the method is looked up on the object first. An own
  property named \<^verbatim>\<open>hasOwnProperty\<close> holds a rule, which is no function, and the call
  throws.
\<close>

definition hasOwnProperty :: "'v object \<Rightarrow> string \<Rightarrow> error + bool" where
  "hasOwnProperty obj k =
     (if own_property obj ''hasOwnProperty'' then Inl NotAFunctionError
      else Inr (own_property obj k))"

text \<open>\<^verbatim>\<open>obj[k]\<close>, read where the test for an own property has succeeded.\<close>

definition get_property :: "'v object \<Rightarrow> string \<Rightarrow> 'v option" where
  "get_property obj k = map_of obj k"

fun replace_property :: "'v object \<Rightarrow> string \<Rightarrow> 'v \<Rightarrow> 'v object" where
  "replace_property [] k v = []"
| "replace_property ((k', v') # obj) k v =
     (if k' = k then (k, v) # obj else (k', v') # replace_property obj k v)"

fun insert_index_property :: "'v object \<Rightarrow> string \<Rightarrow> 'v \<Rightarrow> 'v object" where
  "insert_index_property [] k v = [(k, v)]"
| "insert_index_property ((k', v') # obj) k v =
     (if is_array_index k' \<and> decimal_value k' < decimal_value k
      then (k', v') # insert_index_property obj k v
      else (k, v) # (k', v') # obj)"

text \<open>
  \<^verbatim>\<open>obj[k] = v\<close>: an existing own property keeps its place. Where the object has no
  own property \<^verbatim>\<open>__proto__\<close>, the assignment to that name reaches the setter of
  \<^verbatim>\<open>Object.prototype\<close>: it makes the rule the prototype of the object and creates no
  property. (The prototype is not part of the list: the code reads a property only
  after the test for an own property, enumerates own properties only, and finds the
  method \<^verbatim>\<open>hasOwnProperty\<close> behind a rule as well, a rule having no property of that
  name.)
\<close>

definition set_property :: "'v object \<Rightarrow> string \<Rightarrow> 'v \<Rightarrow> 'v object" where
  "set_property obj k v =
     (if own_property obj k then replace_property obj k v
      else if k = ''__proto__'' then obj
      else if is_array_index k then insert_index_property obj k v
      else obj @ [(k, v)])"

text \<open>\<^verbatim>\<open>delete obj[k]\<close>.\<close>

definition delete_property :: "'v object \<Rightarrow> string \<Rightarrow> 'v object" where
  "delete_property obj k = filter (\<lambda>kv. fst kv \<noteq> k) obj"

definition Object_keys :: "'v object \<Rightarrow> string list" where
  "Object_keys obj = map fst obj"

definition Object_values :: "'v object \<Rightarrow> 'v list" where
  "Object_values obj = map snd obj"

definition Object_entries :: "'v object \<Rightarrow> (string \<times> 'v) list" where
  "Object_entries obj = obj"


section \<open>AclDoc.js\<close>

text \<open>
  The store: its optional default target and the object of its rules. (The field
  \<^verbatim>\<open>otherQuads\<close> of the document is written by \<^verbatim>\<open>addOther\<close> only and read by none of
  the operations below; it is left out.) Every method takes the store as its first
  argument; a method that assigns to \<^verbatim>\<open>this.rules\<close> returns the store it leaves behind.
\<close>

record 'q AclDoc =
  defaultAccessTo :: "string option"
  rules :: "'q AclRule object"

text \<open>\<^verbatim>\<open>_getDefaultAccessTo\<close>: \<^verbatim>\<open>undefined\<close> and the empty string are falsy.\<close>

definition getDefaultAccessTo :: "'q AclDoc \<Rightarrow> error + string" where
  "getDefaultAccessTo this =
     (case defaultAccessTo this of
        None \<Rightarrow> Inl MissingAccessToError
      | Some d \<Rightarrow> if d = [] then Inl MissingAccessToError else Inr d)"

text \<open>\<^verbatim>\<open>_ruleFromArgs\<close>: \<^verbatim>\<open>AclRule.from\<close> gets no options; the default target is
  pushed onto an empty \<^verbatim>\<open>accessTo\<close>.\<close>

definition ruleFromArgs ::
  "'q AclDoc \<Rightarrow> 'q firstVal \<Rightarrow> Agents \<Rightarrow> accessTo_arg option \<Rightarrow> error + 'q AclRule" where
  "ruleFromArgs this permission ags acc =
     (let rule = AclRule_from permission ags acc None
      in if length (accessTo rule) = 0
         then (case getDefaultAccessTo this of
                 Inl e \<Rightarrow> Inl e
               | Inr d \<Rightarrow> Inr (rule\<lparr>accessTo := accessTo rule @ [d]\<rparr>))
         else Inr rule)"

text \<open>
  The loop of \<^verbatim>\<open>_getNewSubjectId\<close>. It throws when the test does, and it never
  returns when it comes to a counter that the increment does not change while the id
  with that counter is a key.
\<close>

partial_function (option) getNewSubjectId_while ::
  "'v object \<Rightarrow> string \<Rightarrow> number \<Rightarrow> (error + string) option" where
  "getNewSubjectId_while obj base index =
     (case hasOwnProperty obj (base @ String_of index) of
        Inl e \<Rightarrow> Some (Inl e)
      | Inr used \<Rightarrow>
          if used then getNewSubjectId_while obj base (increment index)
          else Some (Inr (base @ String_of index)))"

declare getNewSubjectId_while.simps [code]

text \<open>\<^verbatim>\<open>_getNewSubjectId\<close>; an omitted \<^verbatim>\<open>base\<close> is \<^verbatim>\<open>'new-acl-rule-1'\<close>.\<close>

definition getNewSubjectId :: "'q AclDoc \<Rightarrow> string option \<Rightarrow> string outcome" where
  "getNewSubjectId this base =
     (let base0 = (case base of None \<Rightarrow> ''new-acl-rule-1'' | Some b \<Rightarrow> b);
          index = Number (match_trailing_digits base0);
          base1 = replace_trailing_digits base0
      in getNewSubjectId_while (rules this) base1 index)"

text \<open>\<^verbatim>\<open>addRule\<close>: \<^verbatim>\<open>subjectId || this._getNewSubjectId()\<close> takes a generated id for
  an omitted or empty subject id.\<close>

definition addRule ::
  "'q AclDoc \<Rightarrow> 'q firstVal \<Rightarrow> Agents \<Rightarrow> accessTo_arg option \<Rightarrow> string option
     \<Rightarrow> 'q AclDoc outcome" where
  "addRule this perms ags acc subjectId =
     (case ruleFromArgs this perms ags acc of
        Inl e \<Rightarrow> Some (Inl e)
      | Inr rule \<Rightarrow>
          and_then
            (case subjectId of
               None \<Rightarrow> getNewSubjectId this None
             | Some s \<Rightarrow> if s = [] then getNewSubjectId this None else Some (Inr s))
            (\<lambda>subjectId'.
               Some (Inr (this\<lparr>rules := set_property (rules this) subjectId' rule\<rparr>))))"

text \<open>The inner loop of \<^verbatim>\<open>hasRule\<close>: \<^verbatim>\<open>pop\<close> takes the last element.\<close>

function hasRule_while ::
  "'q AclRule list \<Rightarrow> 'q AclRule \<Rightarrow> 'q AclRule list \<Rightarrow> 'q AclRule list" where
  "hasRule_while rulesToCheck r newRulesToCheck =
     (if length rulesToCheck \<noteq> 0
      then (let rule = last rulesToCheck
            in hasRule_while (butlast rulesToCheck) r (newRulesToCheck @ subtract rule r))
      else newRulesToCheck)"
  by pat_completeness auto
termination
  by (relation "measure (\<lambda>(rulesToCheck, r, newRulesToCheck). length rulesToCheck)") auto

declare hasRule_while.simps [simp del]

text \<open>The outer loop of \<^verbatim>\<open>hasRule\<close>, over \<^verbatim>\<open>Object.values(this.rules)\<close>.\<close>

fun hasRule_for :: "'q AclRule list \<Rightarrow> 'q AclRule list \<Rightarrow> bool" where
  "hasRule_for [] rulesToCheck = False"
| "hasRule_for (r # rs) rulesToCheck =
     (let newRulesToCheck = hasRule_while rulesToCheck r []
      in if length newRulesToCheck = 0 then True else hasRule_for rs newRulesToCheck)"

definition hasRule ::
  "'q AclDoc \<Rightarrow> 'q firstVal \<Rightarrow> Agents \<Rightarrow> accessTo_arg option \<Rightarrow> error + bool" where
  "hasRule this perms ags acc =
     (case ruleFromArgs this perms ags acc of
        Inl e \<Rightarrow> Inl e
      | Inr rule \<Rightarrow> Inr (hasRule_for (Object_values (rules this)) [rule]))"

text \<open>The loop of \<^verbatim>\<open>deleteBySubject\<close> that stores the fragments under new ids.\<close>

fun deleteBySubject_for ::
  "'q AclDoc \<Rightarrow> string \<Rightarrow> 'q AclRule list \<Rightarrow> 'q AclDoc outcome" where
  "deleteBySubject_for this subjectId [] = Some (Inr this)"
| "deleteBySubject_for this subjectId (newRule # newRules) =
     and_then (getNewSubjectId this (Some subjectId))
       (\<lambda>newSubjectId.
          deleteBySubject_for
            (this\<lparr>rules := set_property (rules this) newSubjectId newRule\<rparr>)
            subjectId newRules)"

text \<open>\<^verbatim>\<open>deleteBySubject\<close>; the rule is optional. Where the test \<^verbatim>\<open>hasOwnProperty\<close>
  does not throw, the lookup of the stored rule stands for its result as well.\<close>

definition deleteBySubject ::
  "'q AclDoc \<Rightarrow> string \<Rightarrow> 'q AclRule option \<Rightarrow> 'q AclDoc outcome" where
  "deleteBySubject this subjectId rule =
     (case hasOwnProperty (rules this) subjectId of
        Inl e \<Rightarrow> Some (Inl e)
      | Inr present \<Rightarrow>
          (case get_property (rules this) subjectId of
             None \<Rightarrow> Some (Inr this)
           | Some prevRule \<Rightarrow>
               (case rule of
                  None \<Rightarrow> Some (Inr (this\<lparr>rules := delete_property (rules this) subjectId\<rparr>))
                | Some rule' \<Rightarrow>
                    (let newRules = subtract prevRule rule'
                     in if length newRules = 1
                        then Some (Inr (this\<lparr>rules := set_property (rules this) subjectId
                                                          (newRules ! 0)\<rparr>))
                        else deleteBySubject_for
                               (this\<lparr>rules := delete_property (rules this) subjectId\<rparr>)
                               subjectId newRules))))"

text \<open>\<^verbatim>\<open>deleteRule\<close>: the keys are listed once, before the loop; the loop ends with
  the first call that does not return.\<close>

definition deleteRule ::
  "'q AclDoc \<Rightarrow> 'q firstVal \<Rightarrow> Agents \<Rightarrow> accessTo_arg option \<Rightarrow> 'q AclDoc outcome" where
  "deleteRule this perms ags acc =
     (case ruleFromArgs this perms ags acc of
        Inl e \<Rightarrow> Some (Inl e)
      | Inr toDelete \<Rightarrow>
          foldl (\<lambda>prev subjectId.
                   and_then prev (\<lambda>this'. deleteBySubject this' subjectId (Some toDelete)))
            (Some (Inr this)) (Object_keys (rules this)))"

text \<open>Modelled from the spec: the constant \<^verbatim>\<open>Permissions.ALL\<close> (section 3, "the all
  permissions value is exactly the full enumeration"); the file \<^verbatim>\<open>Permissions\<close> is
  missing.\<close>

definition Permissions_ALL :: Permissions where
  "Permissions_ALL = {Read, Write, Append, Control}"

definition deleteAgents :: "'q AclDoc \<Rightarrow> Agents \<Rightarrow> 'q AclDoc outcome" where
  "deleteAgents this ags =
     deleteRule this (IsRule (AclRule_new Permissions_ALL ags None None)) {} None"

definition deletePermissions :: "'q AclDoc \<Rightarrow> Permissions \<Rightarrow> 'q AclDoc outcome" where
  "deletePermissions this perms =
     foldl (\<lambda>prev (subjectId, rule).
              and_then prev
                (\<lambda>this'. (let toDelete = AclRule_new perms (agents rule) None None
                          in deleteBySubject this' subjectId (Some toDelete))))
       (Some (Inr this)) (Object_entries (rules this))"

definition getPermissionsFor :: "'q AclDoc \<Rightarrow> Agents \<Rightarrow> error + Permissions" where
  "getPermissionsFor this ags =
     reduce Permissions_merge
       (map (\<lambda>rule. permissions rule)
          (filter (\<lambda>rule. Agents_includes (agents rule) ags) (Object_values (rules this))))"

definition getAgentsWith :: "'q AclDoc \<Rightarrow> Permissions \<Rightarrow> error + Agents" where
  "getAgentsWith this perms =
     reduce Agents_merge
       (map (\<lambda>rule. agents rule)
          (filter (\<lambda>rule. Permissions_includes (permissions rule) perms)
             (Object_values (rules this))))"

text \<open>\<^verbatim>\<open>getMinifiedRules\<close> returns \<^verbatim>\<open>this.rules\<close>, which is the \<open>rules\<close> field of the
  store it leaves behind.\<close>

definition getMinifiedRules :: "'q AclDoc \<Rightarrow> 'q AclDoc" where
  "getMinifiedRules this =
     foldl (\<lambda>this' (subjectId, rule).
              if hasNoEffect rule
              then this'\<lparr>rules := delete_property (rules this') subjectId\<rparr>
              else this')
       this (Object_entries (rules this))"


section \<open>AclRule.ts and AclDoc.js with shared arrays\<close>

text \<open>
  The definitions above pass rules by value. Whether a query leaves the stored rules
  alone depends on what the value reading hides: a rule holds a reference to its
  \<^verbatim>\<open>accessTo\<close> array, and \<^verbatim>\<open>_ruleFromArgs\<close> pushes onto such an array in place. This
  section reads the query path once more with the arrays in an explicit store. A state
  holds the two fields of the document and the arrays of strings allocated so far; the
  reference of an array is its position in that list. A rule object holds the reference
  of its \<^verbatim>\<open>accessTo\<close> array. Nothing in the sources assigns to a field of a rule
  after its construction or writes into an \<^verbatim>\<open>otherQuads\<close> array, and the operations
  of \<^verbatim>\<open>Permissions\<close> and \<^verbatim>\<open>Agents\<close> return new sets (specification, section 3), so these
  stay values.
\<close>

type_synonym ref = nat

record 'q AclRule_obj =
  obj_permissions :: Permissions
  obj_agents :: Agents
  obj_accessTo :: ref
  obj_otherQuads :: "'q list"
  obj_default :: "string option"
  obj_defaultForNew :: "string option"

record 'q state =
  this_defaultAccessTo :: "string option"
  this_rules :: "'q AclRule_obj object"
  arrays :: "string list list"

text \<open>The constructor's third argument: an array, by reference, or a string.\<close>

datatype accessTo_val = ArrayRef ref | StringVal string

text \<open>The constructor allocates the array of the new rule: a copy of the array passed
  (\<^verbatim>\<open>[...accessTo]\<close>), or \<^verbatim>\<open>[accessTo]\<close>.\<close>

definition AclRule_new_h ::
  "Permissions \<Rightarrow> Agents \<Rightarrow> accessTo_val option \<Rightarrow> 'q AclRuleOptions option \<Rightarrow> 'q state
     \<Rightarrow> 'q AclRule_obj \<times> 'q state" where
  "AclRule_new_h perms ags acc options st =
     (let elements = (case acc of
                        None \<Rightarrow> []
                      | Some (ArrayRef a) \<Rightarrow> arrays st ! a
                      | Some (StringVal l) \<Rightarrow> [l]);
          options' = (case options of
                        None \<Rightarrow> \<lparr>opt_otherQuads = None, opt_default = None, opt_defaultForNew = None\<rparr>
                      | Some v \<Rightarrow> v)
      in (\<lparr>obj_permissions = perms,
           obj_agents = ags,
           obj_accessTo = length (arrays st),
           obj_otherQuads = (case opt_otherQuads options' of Some qs \<Rightarrow> qs | None \<Rightarrow> []),
           obj_default = opt_default options',
           obj_defaultForNew = opt_defaultForNew options'\<rparr>,
          st\<lparr>arrays := arrays st @ [elements]\<rparr>))"

definition getOptions_h :: "'q AclRule_obj \<Rightarrow> 'q AclRuleOptions" where
  "getOptions_h rule =
     \<lparr>opt_otherQuads = Some (obj_otherQuads rule),
      opt_default = obj_default rule,
      opt_defaultForNew = obj_defaultForNew rule\<rparr>"

definition clone_h :: "'q AclRule_obj \<Rightarrow> 'q state \<Rightarrow> 'q AclRule_obj \<times> 'q state" where
  "clone_h this st =
     (let options = getOptions_h this
      in AclRule_new_h (obj_permissions this) (obj_agents this)
           (Some (ArrayRef (obj_accessTo this))) (Some options) st)"

definition hasNoEffect_h :: "'q state \<Rightarrow> 'q AclRule_obj \<Rightarrow> bool" where
  "hasNoEffect_h st this =
     (length (obj_otherQuads this) = 0 \<and>
      (Permissions_isEmpty (obj_permissions this) \<or>
       Agents_isEmpty (obj_agents this) \<or>
       length (arrays st ! obj_accessTo this) = 0))"

datatype 'q firstVal_h = IsRule_h "'q AclRule_obj" | IsPermissions_h Permissions

definition AclRule_from_h ::
  "'q firstVal_h \<Rightarrow> Agents \<Rightarrow> accessTo_val option \<Rightarrow> 'q AclRuleOptions option \<Rightarrow> 'q state
     \<Rightarrow> 'q AclRule_obj \<times> 'q state" where
  "AclRule_from_h first_val ags acc options st =
     (case first_val of
        IsRule_h r \<Rightarrow> clone_h r st
      | IsPermissions_h perms \<Rightarrow> AclRule_new_h perms ags acc options st)"

definition subtract_h ::
  "'q AclRule_obj \<Rightarrow> 'q AclRule_obj \<Rightarrow> 'q state \<Rightarrow> 'q AclRule_obj list \<times> 'q state" where
  "subtract_h first second st =
     (let firstOptions = getOptions_h first;
          unaffectedAgents = Agents_subtract (obj_agents first) (obj_agents second);
          (rule1, st1) = AclRule_new_h (obj_permissions first) unaffectedAgents
                           (Some (ArrayRef (obj_accessTo first))) (Some firstOptions) st;
          unaffectedPermissions =
            Permissions_subtract (obj_permissions first) (obj_permissions second);
          commonAgents = Agents_common (obj_agents first) (obj_agents second);
          (rule2, st2) = AclRule_new_h unaffectedPermissions commonAgents
                           (Some (ArrayRef (obj_accessTo first))) (Some firstOptions) st1
      in (filter (\<lambda>rule. \<not> hasNoEffect_h st2 rule) [rule1, rule2], st2))"

definition getDefaultAccessTo_h :: "'q state \<Rightarrow> error + string" where
  "getDefaultAccessTo_h st =
     (case this_defaultAccessTo st of
        None \<Rightarrow> Inl MissingAccessToError
      | Some d \<Rightarrow> if d = [] then Inl MissingAccessToError else Inr d)"

text \<open>\<^verbatim>\<open>rule.accessTo.push(...)\<close> writes into the array the rule refers to.\<close>

definition ruleFromArgs_h ::
  "'q firstVal_h \<Rightarrow> Agents \<Rightarrow> accessTo_val option \<Rightarrow> 'q state
     \<Rightarrow> (error + 'q AclRule_obj) \<times> 'q state" where
  "ruleFromArgs_h permission ags acc st =
     (let (rule, st1) = AclRule_from_h permission ags acc None st
      in if length (arrays st1 ! obj_accessTo rule) = 0
         then (case getDefaultAccessTo_h st1 of
                 Inl e \<Rightarrow> (Inl e, st1)
               | Inr d \<Rightarrow>
                   (Inr rule,
                    st1\<lparr>arrays := (arrays st1)
                           [obj_accessTo rule := arrays st1 ! obj_accessTo rule @ [d]]\<rparr>))
         else (Inr rule, st1))"

function hasRule_while_h ::
  "'q AclRule_obj list \<Rightarrow> 'q AclRule_obj \<Rightarrow> 'q AclRule_obj list \<Rightarrow> 'q state
     \<Rightarrow> 'q AclRule_obj list \<times> 'q state" where
  "hasRule_while_h rulesToCheck r newRulesToCheck st =
     (if length rulesToCheck \<noteq> 0
      then (let rule = last rulesToCheck;
                pieces = subtract_h rule r st
            in hasRule_while_h (butlast rulesToCheck) r (newRulesToCheck @ fst pieces)
                 (snd pieces))
      else (newRulesToCheck, st))"
  by pat_completeness auto
termination
  by (relation "measure (\<lambda>(rulesToCheck, r, newRulesToCheck, st). length rulesToCheck)") auto

declare hasRule_while_h.simps [simp del]

fun hasRule_for_h ::
  "'q AclRule_obj list \<Rightarrow> 'q AclRule_obj list \<Rightarrow> 'q state \<Rightarrow> bool \<times> 'q state" where
  "hasRule_for_h [] rulesToCheck st = (False, st)"
| "hasRule_for_h (r # rs) rulesToCheck st =
     (let (newRulesToCheck, st1) = hasRule_while_h rulesToCheck r [] st
      in if length newRulesToCheck = 0 then (True, st1)
         else hasRule_for_h rs newRulesToCheck st1)"

definition hasRule_h ::
  "'q firstVal_h \<Rightarrow> Agents \<Rightarrow> accessTo_val option \<Rightarrow> 'q state \<Rightarrow> (error + bool) \<times> 'q state" where
  "hasRule_h perms ags acc st =
     (case ruleFromArgs_h perms ags acc st of
        (Inl e, st1) \<Rightarrow> (Inl e, st1)
      | (Inr rule, st1) \<Rightarrow>
          (let (found, st2) = hasRule_for_h (Object_values (this_rules st1)) [rule] st1
           in (Inr found, st2)))"

text \<open>The two aggregate queries build arrays of rules, of permission sets and of agent
  sets; they allocate no array of strings and write into none.\<close>

definition getPermissionsFor_h :: "Agents \<Rightarrow> 'q state \<Rightarrow> (error + Permissions) \<times> 'q state" where
  "getPermissionsFor_h ags st =
     (reduce Permissions_merge
        (map (\<lambda>rule. obj_permissions rule)
           (filter (\<lambda>rule. Agents_includes (obj_agents rule) ags)
              (Object_values (this_rules st)))),
      st)"

definition getAgentsWith_h :: "Permissions \<Rightarrow> 'q state \<Rightarrow> (error + Agents) \<times> 'q state" where
  "getAgentsWith_h perms st =
     (reduce Agents_merge
        (map (\<lambda>rule. obj_agents rule)
           (filter (\<lambda>rule. Permissions_includes (obj_permissions rule) perms)
              (Object_values (this_rules st)))),
      st)"

text \<open>What a state stores, by value: each rule object with the elements of its
  array, and the document with every key and every rule.\<close>

definition rule_value :: "'q state \<Rightarrow> 'q AclRule_obj \<Rightarrow> 'q AclRule" where
  "rule_value st r =
     \<lparr>permissions = obj_permissions r,
      agents = obj_agents r,
      accessTo = arrays st ! obj_accessTo r,
      otherQuads = obj_otherQuads r,
      default = obj_default r,
      defaultForNew = obj_defaultForNew r\<rparr>"

definition store_value :: "'q state \<Rightarrow> 'q AclDoc" where
  "store_value st =
     \<lparr>defaultAccessTo = this_defaultAccessTo st,
      rules = map (\<lambda>(k, r). (k, rule_value st r)) (this_rules st)\<rparr>"

text \<open>A state is well formed when the array of every stored rule is allocated.\<close>

definition well_formed :: "'q state \<Rightarrow> bool" where
  "well_formed st =
     (\<forall>r \<in> set (Object_values (this_rules st)). obj_accessTo r < length (arrays st))"


section \<open>Notions used by the statements\<close>

text \<open>A rule contains the pair of a permission and an agent when the permission is one
  of its permissions and the agent one of its agents.\<close>

definition covers :: "'q AclRule \<Rightarrow> permission \<Rightarrow> agent \<Rightarrow> bool" where
  "covers r p a = (p \<in> permissions r \<and> a \<in> agents r)"

text \<open>The options object \<^verbatim>\<open>{ otherQuads: quads }\<close>.\<close>

definition otherQuads_options :: "'q list \<Rightarrow> 'q AclRuleOptions" where
  "otherQuads_options quads =
     \<lparr>opt_otherQuads = Some quads, opt_default = None, opt_defaultForNew = None\<rparr>"

text \<open>A working rule of \<^verbatim>\<open>hasRule\<close> is plain when it has no passthrough quad and at
  least one target: then a piece of it is dropped exactly when it contains no pair.\<close>

definition plain :: "'q AclRule \<Rightarrow> bool" where
  "plain f = (otherQuads f = [] \<and> accessTo f \<noteq> [])"

text \<open>A store of two rules, \<^verbatim>\<open>READ\<close> for the agent A and \<^verbatim>\<open>WRITE\<close> for the agent A,
  under different subject ids (the second scenario of section 8 of the
  specification).\<close>

definition two_rule_store :: "unit AclDoc" where
  "two_rule_store =
     \<lparr>defaultAccessTo = Some ''doc'',
      rules = [(''first'', AclRule_new {Read} {WebId ''A''} (Some (Label ''doc'')) None),
               (''second'', AclRule_new {Write} {WebId ''A''} (Some (Label ''doc'')) None)]\<rparr>"

text \<open>The store of the first scenario of section 8 of the specification, with the
  default target \<open>d\<close>: one rule, under the subject id \<^verbatim>\<open>s1\<close>, granting \<^verbatim>\<open>READ\<close> and
  \<^verbatim>\<open>WRITE\<close> to the agents A and B; and the store that \<^verbatim>\<open>deleteRule(READ, A)\<close> leaves
  behind.\<close>

definition scenario_store :: "string \<Rightarrow> unit AclDoc" where
  "scenario_store d =
     \<lparr>defaultAccessTo = Some d,
      rules = [(''s1'', AclRule_new {Read, Write} {WebId ''A'', WebId ''B''}
                          (Some (Labels [d])) None)]\<rparr>"

definition scenario_store_after :: "string \<Rightarrow> unit AclDoc" where
  "scenario_store_after d =
     \<lparr>defaultAccessTo = Some d,
      rules = [(''s1'', AclRule_new {Read, Write} {WebId ''B''} (Some (Labels [d])) None),
               (''s2'', AclRule_new {Write} {WebId ''A''} (Some (Labels [d])) None)]\<rparr>"

text \<open>Between two states: the fields of the document are the same, and the arrays of
  the first state are all there, with the same elements, followed by new ones.\<close>

definition grows :: "'q state \<Rightarrow> 'q state \<Rightarrow> bool" where
  "grows st st' =
     (this_defaultAccessTo st' = this_defaultAccessTo st \<and> this_rules st' = this_rules st \<and>
      (\<exists>new. arrays st' = arrays st @ new))"

text \<open>The array of a rule object is allocated in a state.\<close>

definition allocated :: "'q state \<Rightarrow> 'q AclRule_obj \<Rightarrow> bool" where
  "allocated st r = (obj_accessTo r < length (arrays st))"

text \<open>The arguments of a query, by value.\<close>

definition firstVal_value :: "'q state \<Rightarrow> 'q firstVal_h \<Rightarrow> 'q firstVal" where
  "firstVal_value st fv =
     (case fv of
        IsRule_h r \<Rightarrow> IsRule (rule_value st r)
      | IsPermissions_h perms \<Rightarrow> IsPermissions perms)"

definition accessTo_value :: "'q state \<Rightarrow> accessTo_val option \<Rightarrow> accessTo_arg option" where
  "accessTo_value st acc =
     (case acc of
        None \<Rightarrow> None
      | Some (ArrayRef a) \<Rightarrow> Some (Labels (arrays st ! a))
      | Some (StringVal l) \<Rightarrow> Some (Label l))"

text \<open>A state whose only stored rule has an empty array of targets, and that rule
  object, which a caller can pass to a query as it is.\<close>

definition aliased_rule :: "unit AclRule_obj" where
  "aliased_rule =
     \<lparr>obj_permissions = {Read}, obj_agents = {WebId ''A''}, obj_accessTo = 0,
      obj_otherQuads = [], obj_default = None, obj_defaultForNew = None\<rparr>"

definition aliased_state :: "unit state" where
  "aliased_state =
     \<lparr>this_defaultAccessTo = Some ''doc'',
      this_rules = [(''s1'', aliased_rule)],
      arrays = [[]]\<rparr>"


text \<open>
  The calls of the methods of \<^verbatim>\<open>AclDoc.js\<close> that read or assign \<^verbatim>\<open>this.rules\<close>, with
  their arguments as a caller passes them, rule objects and arrays by reference. (Of
  the other methods, \<^verbatim>\<open>addOther\<close> pushes onto \<^verbatim>\<open>this.otherQuads\<close>, \<^verbatim>\<open>toTurtle\<close> hands the
  document to the parser, whose file is missing, and the three methods whose names
  begin with an underscore are called by the methods below.)
\<close>

datatype 'q call =
    AddRule "'q firstVal_h" Agents "accessTo_val option" "string option"
  | HasRule "'q firstVal_h" Agents "accessTo_val option"
  | DeleteRule "'q firstVal_h" Agents "accessTo_val option"
  | DeleteBySubject string "'q AclRule_obj option"
  | DeleteAgents Agents
  | DeletePermissions Permissions
  | GetPermissionsFor Agents
  | GetAgentsWith Permissions
  | GetMinifiedRules

text \<open>
  The document, by value, that a call leaves behind when it returns. The three queries
  run on the state with the shared arrays; the other methods store only rules that they
  have built themselves, with arrays of their own, and run on the document by value.
\<close>

fun store_after :: "'q call \<Rightarrow> 'q state \<Rightarrow> 'q AclDoc outcome" where
  "store_after (AddRule fv ags acc subjectId) st =
     addRule (store_value st) (firstVal_value st fv) ags (accessTo_value st acc) subjectId"
| "store_after (HasRule fv ags acc) st =
     (case hasRule_h fv ags acc st of
        (Inl e, st') \<Rightarrow> Some (Inl e)
      | (Inr found, st') \<Rightarrow> Some (Inr (store_value st')))"
| "store_after (DeleteRule fv ags acc) st =
     deleteRule (store_value st) (firstVal_value st fv) ags (accessTo_value st acc)"
| "store_after (DeleteBySubject subjectId rule) st =
     deleteBySubject (store_value st) subjectId (map_option (rule_value st) rule)"
| "store_after (DeleteAgents ags) st = deleteAgents (store_value st) ags"
| "store_after (DeletePermissions perms) st = deletePermissions (store_value st) perms"
| "store_after (GetPermissionsFor ags) st =
     (case getPermissionsFor_h ags st of
        (Inl e, st') \<Rightarrow> Some (Inl e)
      | (Inr perms, st') \<Rightarrow> Some (Inr (store_value st')))"
| "store_after (GetAgentsWith perms) st =
     (case getAgentsWith_h perms st of
        (Inl e, st') \<Rightarrow> Some (Inl e)
      | (Inr ags, st') \<Rightarrow> Some (Inr (store_value st')))"
| "store_after GetMinifiedRules st = Some (Inr (getMinifiedRules (store_value st)))"

text \<open>The operations that section 5 of the specification lists as the mutations of
  the store's mapping: \<^verbatim>\<open>addRule\<close>, \<^verbatim>\<open>deleteRule\<close>, \<^verbatim>\<open>deleteBySubject\<close>,
  \<^verbatim>\<open>deletePermissions\<close> and \<^verbatim>\<open>getMinifiedRules\<close>.\<close>

fun listed_mutation :: "'q call \<Rightarrow> bool" where
  "listed_mutation (AddRule fv ags acc subjectId) = True"
| "listed_mutation (HasRule fv ags acc) = False"
| "listed_mutation (DeleteRule fv ags acc) = True"
| "listed_mutation (DeleteBySubject subjectId rule) = True"
| "listed_mutation (DeleteAgents ags) = False"
| "listed_mutation (DeletePermissions perms) = True"
| "listed_mutation (GetPermissionsFor ags) = False"
| "listed_mutation (GetAgentsWith perms) = False"
| "listed_mutation GetMinifiedRules = True"

text \<open>A state whose only stored rule grants \<^verbatim>\<open>READ\<close> to the agent A for the target
  \<^verbatim>\<open>doc\<close>.\<close>

definition granted_state :: "unit state" where
  "granted_state =
     \<lparr>this_defaultAccessTo = Some ''doc'',
      this_rules = [(''s1'',
                     \<lparr>obj_permissions = {Read}, obj_agents = {WebId ''A''}, obj_accessTo = 0,
                      obj_otherQuads = [], obj_default = None, obj_defaultForNew = None\<rparr>)],
      arrays = [[''doc'']]\<rparr>"
section \<open>The rule algebra\<close>

lemma subtract_pieces:
  "subtract A B = filter (\<lambda>r. \<not> hasNoEffect r)
     [A\<lparr>agents := agents A - agents B\<rparr>,
      A\<lparr>permissions := permissions A - permissions B, agents := agents A \<inter> agents B\<rparr>]"
  by (cases A) (simp add: subtract_def AclRule_new_def getOptions_def Agents_subtract_def
      Permissions_subtract_def Agents_common_def Let_def)

lemma hasNoEffect_iff:
  "hasNoEffect r \<longleftrightarrow>
     otherQuads r = [] \<and> (permissions r = {} \<or> agents r = {} \<or> accessTo r = [])"
  by (simp add: hasNoEffect_def Permissions_isEmpty_def Agents_isEmpty_def)

lemmas rule_eval =
  AclRule_new_def otherQuads_options_def subtract_def getOptions_def hasNoEffect_def
  Agents_subtract_def Permissions_subtract_def Agents_common_def Permissions_isEmpty_def
  Agents_isEmpty_def covers_def

text \<open>
  The fragments of \<open>subtract A B\<close>, for rules \<open>A\<close> and \<open>B\<close> with the same
  \<^verbatim>\<open>accessTo\<close> labels and a pair of a permission \<open>p\<close> and an agent \<open>a\<close>: no two
  fragments (at different positions of the returned list) both contain the pair; if
  \<open>p\<close> is a permission of \<open>B\<close> and \<open>a\<close> an agent of \<open>B\<close>, no fragment contains the
  pair; if \<open>A\<close> has a target or a passthrough quad, and the pair belongs to \<open>A\<close> and not
  to \<open>B\<close>, exactly one fragment contains it; and if \<open>A\<close> has neither a target nor a
  passthrough quad, \<^verbatim>\<open>hasNoEffect\<close> is true of both pieces and no fragment is left.
\<close>

lemma subtract_decomposition:
  assumes "set (accessTo A) = set (accessTo B)"
  shows "(\<forall>i j. i < length (subtract A B) \<and> j < length (subtract A B) \<and> i \<noteq> j \<longrightarrow>
            \<not> (covers (subtract A B ! i) p a \<and> covers (subtract A B ! j) p a))
       \<and> (p \<in> permissions B \<and> a \<in> agents B \<longrightarrow>
            (\<forall>f \<in> set (subtract A B). \<not> covers f p a))
       \<and> ((accessTo A \<noteq> [] \<or> otherQuads A \<noteq> []) \<and>
            p \<in> permissions A \<and> a \<in> agents A \<and> (p \<notin> permissions B \<or> a \<notin> agents B) \<longrightarrow>
            length (filter (\<lambda>f. covers f p a) (subtract A B)) = 1)
       \<and> (accessTo A = [] \<and> otherQuads A = [] \<longrightarrow> subtract A B = [])"
proof -
  have disjoint: "\<forall>i j. i < length (subtract A B) \<and> j < length (subtract A B) \<and> i \<noteq> j \<longrightarrow>
            \<not> (covers (subtract A B ! i) p a \<and> covers (subtract A B ! j) p a)"
    by (auto simp: subtract_pieces hasNoEffect_iff covers_def nth_Cons split: nat.splits)
  have outside: "p \<in> permissions B \<and> a \<in> agents B \<longrightarrow>
            (\<forall>f \<in> set (subtract A B). \<not> covers f p a)"
    by (auto simp: subtract_pieces covers_def)
  have once: "(accessTo A \<noteq> [] \<or> otherQuads A \<noteq> []) \<and>
            p \<in> permissions A \<and> a \<in> agents A \<and> (p \<notin> permissions B \<or> a \<notin> agents B) \<longrightarrow>
            length (filter (\<lambda>f. covers f p a) (subtract A B)) = 1"
    by (auto simp: subtract_pieces hasNoEffect_iff covers_def)
  have dropped: "accessTo A = [] \<and> otherQuads A = [] \<longrightarrow> subtract A B = []"
    by (auto simp: subtract_pieces hasNoEffect_iff)
  show ?thesis
    by (rule conjI[OF disjoint conjI[OF outside conjI[OF once dropped]]])
qed

text \<open>
  The decomposition at the rules of the example in the comment of
  \<^verbatim>\<open>AclRule.subtract\<close>, with the target \<^verbatim>\<open>doc\<close> added to both: two fragments are
  returned; the pair of \<^verbatim>\<open>WRITE\<close> and \<^verbatim>\<open>web\<close>, which the second rule does not have,
  is in exactly one of them, and not in both; the pair of \<^verbatim>\<open>READ\<close> and \<^verbatim>\<open>web\<close>,
  which the second rule has, is in neither; and without the target no fragment is
  returned.
\<close>

lemma subtract_decomposition_with_target:
  "set (accessTo (AclRule_new {Read, Write} {WebId ''web'', WebId ''id''}
                    (Some (Label ''doc'')) None :: unit AclRule))
     = set (accessTo (AclRule_new {Read} {WebId ''web''} (Some (Label ''doc'')) None
                        :: unit AclRule))
   \<and> length (subtract (AclRule_new {Read, Write} {WebId ''web'', WebId ''id''}
                         (Some (Label ''doc'')) None)
               (AclRule_new {Read} {WebId ''web''} (Some (Label ''doc'')) None
                  :: unit AclRule)) = 2
   \<and> length (filter (\<lambda>f. covers f Write (WebId ''web''))
        (subtract (AclRule_new {Read, Write} {WebId ''web'', WebId ''id''}
                     (Some (Label ''doc'')) None)
           (AclRule_new {Read} {WebId ''web''} (Some (Label ''doc'')) None
              :: unit AclRule))) = 1
   \<and> \<not> (covers (subtract (AclRule_new {Read, Write} {WebId ''web'', WebId ''id''}
                              (Some (Label ''doc'')) None)
                    (AclRule_new {Read} {WebId ''web''} (Some (Label ''doc'')) None
                       :: unit AclRule) ! 0) Write (WebId ''web'')
          \<and> covers (subtract (AclRule_new {Read, Write} {WebId ''web'', WebId ''id''}
                                (Some (Label ''doc'')) None)
                      (AclRule_new {Read} {WebId ''web''} (Some (Label ''doc'')) None
                         :: unit AclRule) ! 1) Write (WebId ''web''))
   \<and> \<not> (\<exists>f \<in> set (subtract (AclRule_new {Read, Write} {WebId ''web'', WebId ''id''}
                                 (Some (Label ''doc'')) None)
                       (AclRule_new {Read} {WebId ''web''} (Some (Label ''doc'')) None
                          :: unit AclRule)). covers f Read (WebId ''web''))
   \<and> subtract (AclRule_new {Read, Write} {WebId ''web'', WebId ''id''} None None)
        (AclRule_new {Read} {WebId ''web''} None None :: unit AclRule) = []"
proof -
  let ?A = "AclRule_new {Read, Write} {WebId ''web'', WebId ''id''}
              (Some (Label ''doc'')) None :: unit AclRule"
  let ?B = "AclRule_new {Read} {WebId ''web''} (Some (Label ''doc'')) None :: unit AclRule"
  let ?A_bare = "AclRule_new {Read, Write} {WebId ''web'', WebId ''id''} None None :: unit AclRule"
  let ?B_bare = "AclRule_new {Read} {WebId ''web''} None None :: unit AclRule"
  have same: "set (accessTo ?A) = set (accessTo ?B)"
    by (simp add: AclRule_new_def)
  have same0: "set (accessTo ?A_bare) = set (accessTo ?B_bare)"
    by (simp add: AclRule_new_def)
  have two: "length (subtract ?A ?B) = 2"
    by (simp add: rule_eval)
  have left: "(accessTo ?A \<noteq> [] \<or> otherQuads ?A \<noteq> []) \<and>
      Write \<in> permissions ?A \<and> WebId ''web'' \<in> agents ?A \<and>
      (Write \<notin> permissions ?B \<or> WebId ''web'' \<notin> agents ?B)"
    by (simp add: AclRule_new_def)
  have taken: "Read \<in> permissions ?B \<and> WebId ''web'' \<in> agents ?B"
    by (simp add: AclRule_new_def)
  have bare: "accessTo ?A_bare = [] \<and> otherQuads ?A_bare = []"
    by (simp add: AclRule_new_def)
  note at_Write = subtract_decomposition[OF same, of Write "WebId ''web''"]
  note at_Read = subtract_decomposition[OF same, of Read "WebId ''web''"]
  note at_bare = subtract_decomposition[OF same0, of Read "WebId ''web''"]
  have once: "length (filter (\<lambda>f. covers f Write (WebId ''web'')) (subtract ?A ?B)) = 1"
    using at_Write left by blast
  have "(0::nat) < length (subtract ?A ?B) \<and> 1 < length (subtract ?A ?B) \<and> (0::nat) \<noteq> 1"
    using two by simp
  then have apart: "\<not> (covers (subtract ?A ?B ! 0) Write (WebId ''web'')
      \<and> covers (subtract ?A ?B ! 1) Write (WebId ''web''))"
    using at_Write by blast
  have outside: "\<not> (\<exists>f \<in> set (subtract ?A ?B). covers f Read (WebId ''web''))"
    using at_Read taken by blast
  have dropped: "subtract ?A_bare ?B_bare = []"
    using at_bare bare by blast
  show ?thesis
    by (intro conjI same two once apart outside dropped)
qed

text \<open>
  C1, at the example in the comment of \<^verbatim>\<open>AclRule.subtract\<close>. The comment builds
  \<^verbatim>\<open>first = new AclRule([READ, WRITE], ['web', 'id'])\<close> and
  \<^verbatim>\<open>second = new AclRule(READ, 'web')\<close>, both without targets, and gives
  \<^verbatim>\<open>[AclRule([READ, WRITE], ['id']), AclRule(WRITE, 'web')]\<close> as the result of
  \<^verbatim>\<open>AclRule.subtract(first, second)\<close>. The two rules have the same (empty)
  \<^verbatim>\<open>accessTo\<close>, and the pair of \<^verbatim>\<open>WRITE\<close> and \<^verbatim>\<open>web\<close> belongs to the first rule and
  not to the second. \<^verbatim>\<open>hasNoEffect\<close> is true of both rules of the comment, which have
  no target, and \<^verbatim>\<open>subtract\<close> returns the empty list: the pair is in no returned
  fragment, where the comment and the claim have it in exactly one.
\<close>

theorem subtract_example_of_comment_returns_no_fragment:
  "set (accessTo (AclRule_new {Read, Write} {WebId ''web'', WebId ''id''} None None
                   :: unit AclRule))
     = set (accessTo (AclRule_new {Read} {WebId ''web''} None None :: unit AclRule))
   \<and> Write \<in> permissions (AclRule_new {Read, Write} {WebId ''web'', WebId ''id''} None None
                            :: unit AclRule)
   \<and> WebId ''web'' \<in> agents (AclRule_new {Read, Write} {WebId ''web'', WebId ''id''} None None
                               :: unit AclRule)
   \<and> Write \<notin> permissions (AclRule_new {Read} {WebId ''web''} None None :: unit AclRule)
   \<and> hasNoEffect (AclRule_new {Read, Write} {WebId ''id''} None None :: unit AclRule)
   \<and> hasNoEffect (AclRule_new {Write} {WebId ''web''} None None :: unit AclRule)
   \<and> subtract (AclRule_new {Read, Write} {WebId ''web'', WebId ''id''} None None)
        (AclRule_new {Read} {WebId ''web''} None None :: unit AclRule) = []
   \<and> length (filter (\<lambda>f. covers f Write (WebId ''web''))
        (subtract (AclRule_new {Read, Write} {WebId ''web'', WebId ''id''} None None)
           (AclRule_new {Read} {WebId ''web''} None None :: unit AclRule))) = 0"
  by (simp add: rule_eval)

text \<open>
  C2, as stated, at a rule with one passthrough quad: both pieces of
  \<open>subtract A A\<close> are kept, because \<^verbatim>\<open>hasNoEffect\<close> is false for every rule that stores
  a quad.
\<close>

theorem quads_keep_both_pieces_counterexample:
  "subtract
     (AclRule_new {Read} {Public} (Some (Label ''doc'')) (Some (otherQuads_options [''quad''])))
     (AclRule_new {Read} {Public} (Some (Label ''doc'')) (Some (otherQuads_options [''quad''])))
   = [AclRule_new {Read} {} (Some (Label ''doc'')) (Some (otherQuads_options [''quad''])),
      AclRule_new {} {Public} (Some (Label ''doc'')) (Some (otherQuads_options [''quad'']))]"
  by (simp add: rule_eval)

text \<open>
  C2, amended. \<open>subtract A A\<close> is the empty list exactly for the rules \<open>A\<close> without
  passthrough quads; for a rule with passthrough quads it returns both pieces, the
  first with no agent and the second with no permission.
\<close>

theorem subtract_self:
  "(subtract A A = [] \<longleftrightarrow> otherQuads A = []) \<and>
   (otherQuads A \<noteq> [] \<longrightarrow> subtract A A = [A\<lparr>agents := {}\<rparr>, A\<lparr>permissions := {}\<rparr>])"
  by (auto simp add: subtract_pieces hasNoEffect_iff)

text \<open>
  C2, amended, at a rule without passthrough quads, where the result is empty, and at
  the same rule with one passthrough quad, where both pieces are returned.
\<close>

theorem subtract_self_witness:
  "subtract (AclRule_new {Read} {Public} (Some (Label ''doc'')) None :: unit AclRule)
     (AclRule_new {Read} {Public} (Some (Label ''doc'')) None) = []
   \<and> length (subtract
        (AclRule_new {Read} {Public} (Some (Label ''doc''))
           (Some (otherQuads_options [''quad''])))
        (AclRule_new {Read} {Public} (Some (Label ''doc''))
           (Some (otherQuads_options [''quad''])))) = 2"
proof -
  let ?A = "AclRule_new {Read} {Public} (Some (Label ''doc'')) None :: unit AclRule"
  let ?Q = "AclRule_new {Read} {Public} (Some (Label ''doc''))
              (Some (otherQuads_options [''quad'']))"
  have no_quads: "otherQuads ?A = []"
    by (simp add: AclRule_new_def)
  have quads: "otherQuads ?Q \<noteq> []"
    by (simp add: AclRule_new_def otherQuads_options_def)
  have "subtract ?A ?A = []"
    using subtract_self[of ?A] no_quads by blast
  moreover have "subtract ?Q ?Q = [?Q\<lparr>agents := {}\<rparr>, ?Q\<lparr>permissions := {}\<rparr>]"
    using subtract_self[of ?Q] quads by blast
  ultimately show ?thesis
    by simp
qed

text \<open>
  C5, at two rules that differ in their targets only: \<^verbatim>\<open>equals\<close> compares the
  passthrough quads, the permissions, the agents and the two default flags, and not
  \<^verbatim>\<open>accessTo\<close>, so it returns true although the \<^verbatim>\<open>accessTo\<close> label sets differ.
\<close>

theorem equals_ignores_accessTo:
  "equals (AclRule_new {Read} {Public} (Some (Label ''https://pod.example/a'')) None
             :: unit AclRule)
     (AclRule_new {Read} {Public} (Some (Label ''https://pod.example/b'')) None)
   \<and> set (accessTo (AclRule_new {Read} {Public} (Some (Label ''https://pod.example/a'')) None
                      :: unit AclRule))
     \<noteq> set (accessTo (AclRule_new {Read} {Public} (Some (Label ''https://pod.example/b'')) None
                        :: unit AclRule))"
  by (simp add: AclRule_new_def equals_def iterableEquals_def Permissions_equals_def
      Agents_equals_def)


section \<open>Containment: hasRule\<close>

lemma hasRule_while_eq:
  "hasRule_while ws r acc = acc @ concat (map (\<lambda>f. subtract f r) (rev ws))"
proof (induction ws r acc rule: hasRule_while.induct)
  case (1 ws r acc)
  show ?case
  proof (cases "ws = []")
    case True
    then show ?thesis by (simp add: hasRule_while.simps[of "[]"])
  next
    case False
    then have ws: "ws = butlast ws @ [last ws]" by simp
    have rev_ws: "rev ws = last ws # rev (butlast ws)"
      by (subst ws) simp
    have "hasRule_while ws r acc = hasRule_while (butlast ws) r (acc @ subtract (last ws) r)"
      using False by (simp add: hasRule_while.simps[of ws])
    also have "\<dots> = (acc @ subtract (last ws) r) @ concat (map (\<lambda>f. subtract f r) (rev (butlast ws)))"
      using False by (intro 1) simp_all
    also have "\<dots> = acc @ concat (map (\<lambda>f. subtract f r) (rev ws))"
      by (simp add: rev_ws)
    finally show ?thesis .
  qed
qed

lemma subtract_plain: "plain f \<Longrightarrow> g \<in> set (subtract f r) \<Longrightarrow> plain g"
  by (auto simp: subtract_pieces plain_def split: if_splits)

lemma subtract_covers:
  "plain f \<Longrightarrow> (\<exists>g \<in> set (subtract f r). covers g p a) \<longleftrightarrow> covers f p a \<and> \<not> covers r p a"
  by (auto simp: subtract_pieces plain_def covers_def hasNoEffect_iff)

lemma subtract_Nil_iff:
  "plain f \<Longrightarrow> subtract f r = [] \<longleftrightarrow> (\<forall>p a. covers f p a \<longrightarrow> covers r p a)"
  by (auto simp: subtract_pieces plain_def covers_def hasNoEffect_iff)

lemma hasRule_for_iff:
  "\<forall>f \<in> set ws. plain f \<Longrightarrow>
   hasRule_for rs ws \<longleftrightarrow>
     rs \<noteq> [] \<and> (\<forall>p a. (\<exists>f \<in> set ws. covers f p a) \<longrightarrow> (\<exists>r \<in> set rs. covers r p a))"
proof (induction rs arbitrary: ws)
  case Nil
  then show ?case by simp
next
  case (Cons r rs)
  let ?new = "concat (map (\<lambda>f. subtract f r) (rev ws))"
  have new_plain: "\<forall>g \<in> set ?new. plain g"
    using Cons.prems by (auto intro: subtract_plain)
  have new_covers: "(\<exists>g \<in> set ?new. covers g p a) \<longleftrightarrow> (\<exists>f \<in> set ws. covers f p a) \<and> \<not> covers r p a" for p a
    using Cons.prems subtract_covers[of _ r p a] by auto
  have new_Nil: "?new = [] \<longleftrightarrow> (\<forall>p a. (\<exists>f \<in> set ws. covers f p a) \<longrightarrow> covers r p a)"
  proof -
    have "?new = [] \<longleftrightarrow> (\<forall>f \<in> set ws. subtract f r = [])"
      by auto
    also have "\<dots> \<longleftrightarrow> (\<forall>f \<in> set ws. \<forall>p a. covers f p a \<longrightarrow> covers r p a)"
      using Cons.prems by (simp add: subtract_Nil_iff)
    also have "\<dots> \<longleftrightarrow> (\<forall>p a. (\<exists>f \<in> set ws. covers f p a) \<longrightarrow> covers r p a)"
      by blast
    finally show ?thesis .
  qed
  show ?case
  proof (cases "?new = []")
    case True
    then show ?thesis using new_Nil by (auto simp: hasRule_while_eq)
  next
    case False
    have "hasRule_for (r # rs) ws = hasRule_for rs ?new"
      using False by (auto simp: hasRule_while_eq)
    also have "\<dots> \<longleftrightarrow> rs \<noteq> [] \<and> (\<forall>p a. (\<exists>g \<in> set ?new. covers g p a) \<longrightarrow> (\<exists>r \<in> set rs. covers r p a))"
      by (rule Cons.IH[OF new_plain])
    also have "\<dots> \<longleftrightarrow> (\<forall>p a. (\<exists>f \<in> set ws. covers f p a) \<longrightarrow> (\<exists>r' \<in> set (r # rs). covers r' p a))"
    proof (cases "rs = []")
      case True
      then show ?thesis using False new_Nil by auto
    next
      case False
      then show ?thesis unfolding new_covers by auto
    qed
    finally show ?thesis by simp
  qed
qed


lemma ruleFromArgs_accessTo:
  "ruleFromArgs this fv ags acc = Inr q \<Longrightarrow> accessTo q \<noteq> []"
  by (auto simp: ruleFromArgs_def Let_def split: if_splits sum.splits)

lemma ruleFromArgs_IsPermissions:
  "ruleFromArgs this (IsPermissions P) Ag acc = Inr q \<Longrightarrow>
     permissions q = P \<and> agents q = Ag \<and> otherQuads q = []"
  by (auto simp: ruleFromArgs_def AclRule_from_def AclRule_new_def Let_def
      split: if_splits sum.splits)

lemma ruleFromArgs_IsPermissions_error:
  "(\<exists>e. ruleFromArgs this (IsPermissions P) Ag acc = Inl e) \<longleftrightarrow>
     (acc = None \<or> acc = Some (Labels [])) \<and>
     (defaultAccessTo this = None \<or> defaultAccessTo this = Some [])"
  apply (cases acc)
  subgoal by (auto simp: ruleFromArgs_def AclRule_from_def AclRule_new_def Let_def getDefaultAccessTo_def
      split: if_splits sum.splits option.splits)
  subgoal for v by (cases v) (auto simp: ruleFromArgs_def AclRule_from_def AclRule_new_def Let_def getDefaultAccessTo_def
      split: if_splits sum.splits option.splits)
  done

lemma ruleFromArgs_error_is: "ruleFromArgs this fv ags acc = Inl e \<Longrightarrow> e = MissingAccessToError"
  by (auto simp: ruleFromArgs_def Let_def getDefaultAccessTo_def split: if_splits sum.splits option.splits)

text \<open>
  C3. For a query with a non-empty permission set \<open>P\<close> and a non-empty agent set
  \<open>Ag\<close>, \<^verbatim>\<open>hasRule\<close> returns true if and only if for every permission of \<open>P\<close> and
  every agent of \<open>Ag\<close> some stored rule has that permission among its permissions and
  that agent among its agents. The call raises instead of returning exactly when it is
  the usage error of section 3 of the specification: no target is passed, or an empty
  array of targets, and the store has no default target.
\<close>

theorem hasRule_containment:
  assumes "P \<noteq> {}" and "Ag \<noteq> {}"
  shows "hasRule this (IsPermissions P) Ag acc =
     (if (acc = None \<or> acc = Some (Labels [])) \<and>
         (defaultAccessTo this = None \<or> defaultAccessTo this = Some [])
      then Inl MissingAccessToError
      else Inr (\<forall>p \<in> P. \<forall>a \<in> Ag.
             \<exists>r \<in> set (Object_values (rules this)). p \<in> permissions r \<and> a \<in> agents r))"
proof (cases "ruleFromArgs this (IsPermissions P) Ag acc")
  case (Inl e)
  then show ?thesis
    using ruleFromArgs_IsPermissions_error[of this P Ag acc] ruleFromArgs_error_is[OF Inl]
    by (auto simp: hasRule_def)
next
  case (Inr q)
  then have noerr: "\<not> ((acc = None \<or> acc = Some (Labels [])) \<and>
         (defaultAccessTo this = None \<or> defaultAccessTo this = Some []))"
    using ruleFromArgs_IsPermissions_error[of this P Ag acc] by auto
  have q: "permissions q = P" "agents q = Ag" "plain q"
    using ruleFromArgs_IsPermissions[OF Inr] ruleFromArgs_accessTo[OF Inr] by (auto simp: plain_def)
  have "hasRule_for (Object_values (rules this)) [q] \<longleftrightarrow>
      Object_values (rules this) \<noteq> [] \<and>
      (\<forall>p a. (\<exists>f \<in> set [q]. covers f p a) \<longrightarrow> (\<exists>r \<in> set (Object_values (rules this)). covers r p a))"
    by (rule hasRule_for_iff) (simp add: q)
  also have "\<dots> \<longleftrightarrow> (\<forall>p \<in> P. \<forall>a \<in> Ag.
             \<exists>r \<in> set (Object_values (rules this)). p \<in> permissions r \<and> a \<in> agents r)"
    using assms by (auto simp: covers_def q)
  finally show ?thesis
    using Inr noerr by (simp add: hasRule_def)
qed

text \<open>
  C3 at the store of two rules: \<^verbatim>\<open>READ\<close> and \<^verbatim>\<open>WRITE\<close> for the agent A are covered
  by the two rules together, \<^verbatim>\<open>READ\<close> for the agents A and B is not, and without a
  default target the call with two arguments raises.
\<close>

theorem hasRule_containment_witness:
  "hasRule two_rule_store (IsPermissions {Read, Write}) {WebId ''A''} None = Inr True
   \<and> hasRule two_rule_store (IsPermissions {Read}) {WebId ''A'', WebId ''B''} None = Inr False
   \<and> hasRule (two_rule_store\<lparr>defaultAccessTo := None\<rparr>) (IsPermissions {Read}) {WebId ''A''} None
       = Inl MissingAccessToError"
  using hasRule_containment[of "{Read, Write}" "{WebId ''A''}" two_rule_store None]
    hasRule_containment[of "{Read}" "{WebId ''A'', WebId ''B''}" two_rule_store None]
    hasRule_containment[of "{Read}" "{WebId ''A''}" "two_rule_store\<lparr>defaultAccessTo := None\<rparr>" None]
  by (simp add: two_rule_store_def Object_values_def AclRule_new_def)

text \<open>
  C10. A \<^verbatim>\<open>hasRule\<close> query whose constructed query rule has no effect (no passthrough
  quad, and no permission or no agent; it always has a target) returns true if and only
  if the store holds at least one rule: on the empty store it returns false.
\<close>

theorem hasRule_ineffective_query:
  assumes "ruleFromArgs this fv ags acc = Inr q" and "hasNoEffect q"
  shows "hasRule this fv ags acc = Inr (rules this \<noteq> [])"
proof -
  have q: "plain q" "permissions q = {} \<or> agents q = {}"
    using assms(2) ruleFromArgs_accessTo[OF assms(1)] by (auto simp: plain_def hasNoEffect_iff)
  have "hasRule_for (Object_values (rules this)) [q] \<longleftrightarrow>
      Object_values (rules this) \<noteq> [] \<and>
      (\<forall>p a. (\<exists>f \<in> set [q]. covers f p a) \<longrightarrow> (\<exists>r \<in> set (Object_values (rules this)). covers r p a))"
    by (rule hasRule_for_iff) (simp add: q)
  also have "\<dots> \<longleftrightarrow> rules this \<noteq> []"
    using q(2) by (auto simp: covers_def Object_values_def)
  finally show ?thesis
    using assms(1) by (simp add: hasRule_def)
qed

text \<open>
  C10 at the query with no permission for the agent C: true on the store of two rules,
  false on the empty store.
\<close>

theorem hasRule_ineffective_query_witness:
  "hasRule two_rule_store (IsPermissions {}) {WebId ''C''} None = Inr True
   \<and> hasRule (two_rule_store\<lparr>rules := []\<rparr>) (IsPermissions {}) {WebId ''C''} None = Inr False"
proof -
  let ?q = "AclRule_new {} {WebId ''C''} (Some (Label ''doc'')) None :: unit AclRule"
  have q1: "ruleFromArgs two_rule_store (IsPermissions {}) {WebId ''C''} None = Inr ?q"
    by (simp add: two_rule_store_def ruleFromArgs_def AclRule_from_def AclRule_new_def
        getDefaultAccessTo_def)
  have q2: "ruleFromArgs (two_rule_store\<lparr>rules := []\<rparr>) (IsPermissions {}) {WebId ''C''} None = Inr ?q"
    by (simp add: two_rule_store_def ruleFromArgs_def AclRule_from_def AclRule_new_def
        getDefaultAccessTo_def)
  have ineffective: "hasNoEffect ?q"
    by (simp add: rule_eval)
  from hasRule_ineffective_query[OF q1 ineffective] hasRule_ineffective_query[OF q2 ineffective]
  show ?thesis
    by (simp add: two_rule_store_def)
qed


section \<open>Aggregate queries\<close>

lemma foldl_union: "foldl (\<union>) x xs = x \<union> \<Union> (set xs)"
  by (induction xs arbitrary: x) auto

lemma reduce_Permissions_merge:
  "reduce Permissions_merge xs = (if xs = [] then Inl EmptyReductionError else Inr (\<Union> (set xs)))"
proof (cases xs)
  case Nil
  then show ?thesis by simp
next
  case (Cons x ys)
  have "Permissions_merge = (\<union>)"
    by (intro ext) (simp add: Permissions_merge_def)
  then show ?thesis using Cons by (simp add: foldl_union)
qed

lemma reduce_Agents_merge:
  "reduce Agents_merge xs = (if xs = [] then Inl EmptyReductionError else Inr (\<Union> (set xs)))"
proof (cases xs)
  case Nil
  then show ?thesis by simp
next
  case (Cons x ys)
  have "Agents_merge = (\<union>)"
    by (intro ext) (simp add: Agents_merge_def)
  then show ?thesis using Cons by (simp add: foldl_union)
qed

text \<open>
  C6. \<^verbatim>\<open>getPermissionsFor(agents)\<close> returns the union of the permissions of exactly
  the stored rules whose agents include the queried agents, and raises the
  empty-reduction error if and only if no stored rule qualifies; \<^verbatim>\<open>getAgentsWith\<close> is
  the same with the roles of permissions and agents exchanged.
\<close>

theorem aggregate_queries:
  "getPermissionsFor this ags =
     (if \<exists>r \<in> set (Object_values (rules this)). ags \<subseteq> agents r
      then Inr (\<Union>r \<in> {r \<in> set (Object_values (rules this)). ags \<subseteq> agents r}. permissions r)
      else Inl EmptyReductionError)
   \<and> getAgentsWith this perms =
     (if \<exists>r \<in> set (Object_values (rules this)). perms \<subseteq> permissions r
      then Inr (\<Union>r \<in> {r \<in> set (Object_values (rules this)). perms \<subseteq> permissions r}. agents r)
      else Inl EmptyReductionError)"
proof
  let ?rs = "Object_values (rules this)"
  have "set (map (\<lambda>rule. permissions rule)
              (filter (\<lambda>rule. Agents_includes (agents rule) ags) ?rs))
      = permissions ` {r \<in> set ?rs. ags \<subseteq> agents r}"
    by (auto simp: Agents_includes_def)
  moreover have "filter (\<lambda>rule. Agents_includes (agents rule) ags) ?rs = [] \<longleftrightarrow>
      \<not> (\<exists>r \<in> set ?rs. ags \<subseteq> agents r)"
    by (auto simp: Agents_includes_def filter_empty_conv)
  ultimately show "getPermissionsFor this ags =
     (if \<exists>r \<in> set ?rs. ags \<subseteq> agents r
      then Inr (\<Union>r \<in> {r \<in> set ?rs. ags \<subseteq> agents r}. permissions r)
      else Inl EmptyReductionError)"
    by (simp add: getPermissionsFor_def reduce_Permissions_merge)
next
  let ?rs = "Object_values (rules this)"
  have "set (map (\<lambda>rule. agents rule)
              (filter (\<lambda>rule. Permissions_includes (permissions rule) perms) ?rs))
      = agents ` {r \<in> set ?rs. perms \<subseteq> permissions r}"
    by (auto simp: Permissions_includes_def)
  moreover have "filter (\<lambda>rule. Permissions_includes (permissions rule) perms) ?rs = [] \<longleftrightarrow>
      \<not> (\<exists>r \<in> set ?rs. perms \<subseteq> permissions r)"
    by (auto simp: Permissions_includes_def filter_empty_conv)
  ultimately show "getAgentsWith this perms =
     (if \<exists>r \<in> set ?rs. perms \<subseteq> permissions r
      then Inr (\<Union>r \<in> {r \<in> set ?rs. perms \<subseteq> permissions r}. agents r)
      else Inl EmptyReductionError)"
    by (simp add: getAgentsWith_def reduce_Agents_merge)
qed

text \<open>
  C6 at the store of two rules: the agent A has \<^verbatim>\<open>READ\<close> and \<^verbatim>\<open>WRITE\<close>, no rule
  names the agent B, and the agent A is the one with \<^verbatim>\<open>WRITE\<close>.
\<close>

theorem aggregate_queries_witness:
  "getPermissionsFor two_rule_store {WebId ''A''} = Inr {Read, Write}
   \<and> getPermissionsFor two_rule_store {WebId ''B''} = Inl EmptyReductionError
   \<and> getAgentsWith two_rule_store {Write} = Inr {WebId ''A''}"
proof -
  let ?r1 = "AclRule_new {Read} {WebId ''A''} (Some (Label ''doc'')) None :: unit AclRule"
  let ?r2 = "AclRule_new {Write} {WebId ''A''} (Some (Label ''doc'')) None :: unit AclRule"
  have vals: "Object_values (rules two_rule_store) = [?r1, ?r2]"
    by (simp add: two_rule_store_def Object_values_def)
  have for_A: "{r \<in> set [?r1, ?r2]. {WebId ''A''} \<subseteq> agents r} = {?r1, ?r2}"
    by (auto simp: AclRule_new_def)
  have for_B: "\<not> (\<exists>r \<in> set [?r1, ?r2]. {WebId ''B''} \<subseteq> agents r)"
    by (simp add: AclRule_new_def)
  have with_Write: "{r \<in> set [?r1, ?r2]. {Write} \<subseteq> permissions r} = {?r2}"
    by (auto simp: AclRule_new_def)
  have "getPermissionsFor two_rule_store {WebId ''A''} = Inr {Read, Write}"
    using aggregate_queries[of two_rule_store "{WebId ''A''}" "{Write}"]
    unfolding vals for_A by (auto simp: AclRule_new_def)
  moreover have "getPermissionsFor two_rule_store {WebId ''B''} = Inl EmptyReductionError"
    using aggregate_queries[of two_rule_store "{WebId ''B''}" "{Write}"] for_B
    unfolding vals by simp
  moreover have "getAgentsWith two_rule_store {Write} = Inr {WebId ''A''}"
    using aggregate_queries[of two_rule_store "{WebId ''A''}" "{Write}"]
    unfolding vals with_Write by (auto simp: AclRule_new_def)
  ultimately show ?thesis
    by simp
qed



section \<open>Fresh subject ids\<close>

lemma digit_val_digit_char: "d < 10 \<Longrightarrow> digit_val (digit_char d) = d"
proof -
  assume "d < 10"
  then have "d \<in> {0, 1, 2, 3, 4, 5, 6, 7, 8, 9}" by auto
  then show ?thesis by (auto simp: digit_val_def digit_char_def)
qed

lemma decimal_value_snoc: "decimal_value (ds @ [c]) = 10 * decimal_value ds + digit_val c"
  by (simp add: decimal_value_def)

lemma decimal_value_decimal: "decimal_value (decimal n) = n"
proof (induction n rule: decimal.induct)
  case (1 n)
  show ?case
  proof (cases "n < 10")
    case True
    then show ?thesis
      by (simp add: decimal.simps[of n] decimal_value_def digit_val_digit_char)
  next
    case False
    then show ?thesis
      using 1 by (simp add: decimal.simps[of n] decimal_value_snoc digit_val_digit_char)
  qed
qed

lemma decimal_eq_iff: "decimal m = decimal n \<longleftrightarrow> m = n"
  by (metis decimal_value_decimal)






lemma own_property_iff: "own_property obj k \<longleftrightarrow> k \<in> fst ` set obj"
  by (simp add: own_property_def map_of_eq_None_iff)

lemma String_of_exact: "n \<le> max_exact \<Longrightarrow> String_of (Finite n) = decimal n"
  by (simp add: String_of_def)

lemma hasOwnProperty_method:
  "\<not> own_property obj ''hasOwnProperty'' \<Longrightarrow> hasOwnProperty obj k = Inr (own_property obj k)"
  by (simp add: hasOwnProperty_def)

text \<open>The loop returns the first id from the counter on that is no key, when the
  counter gets there without passing \<open>2^53\<close>.\<close>

lemma getNewSubjectId_while_returns:
  assumes callable: "\<not> own_property obj ''hasOwnProperty''"
    and exact: "n \<le> max_exact"
    and unused: "\<not> own_property obj (base @ decimal n)"
  shows "index \<le> n \<Longrightarrow>
         \<forall>m. index \<le> m \<and> m < n \<longrightarrow> own_property obj (base @ decimal m) \<Longrightarrow>
         getNewSubjectId_while obj base (Finite index) = Some (Inr (base @ decimal n))"
proof (induction "n - index" arbitrary: index)
  case 0
  then have "index = n"
    by simp
  then show ?case
    using unused callable exact
    by (simp add: getNewSubjectId_while.simps[of obj base "Finite n"] hasOwnProperty_method
        String_of_exact)
next
  case (Suc d)
  then have less: "index < n"
    by simp
  then have used: "own_property obj (base @ decimal index)"
    using Suc.prems(2) by simp
  have step: "increment (Finite index) = Finite (index + 1)"
    using less exact by (simp add: increment_def round_to_double_def)
  have string: "String_of (Finite index) = decimal index"
    using less exact by (simp add: String_of_exact)
  have "d = n - (index + 1)"
    using Suc.hyps(2) by simp
  moreover have "index + 1 \<le> n"
    using less by simp
  moreover have "\<forall>m. index + 1 \<le> m \<and> m < n \<longrightarrow> own_property obj (base @ decimal m)"
    using Suc.prems(2) by simp
  ultimately have "getNewSubjectId_while obj base (Finite (index + 1))
      = Some (Inr (base @ decimal n))"
    by (rule Suc.hyps(1))
  then show ?case
    using used callable step string
    by (simp add: getNewSubjectId_while.simps[of obj base "Finite index"]
        hasOwnProperty_method)
qed

text \<open>The loop throws at once when a rule is stored under \<^verbatim>\<open>hasOwnProperty\<close>.\<close>

lemma getNewSubjectId_while_throws:
  "own_property obj ''hasOwnProperty'' \<Longrightarrow>
   getNewSubjectId_while obj base index = Some (Inl NotAFunctionError)"
  by (simp add: getNewSubjectId_while.simps[of obj base index] hasOwnProperty_def)

text \<open>The loop never returns when the counter is \<open>2^53\<close> and the id with that number
  is a key: \<open>2^53 + 1\<close> is no double and is rounded to \<open>2^53\<close>, so the increment leaves
  the counter where it is.\<close>

lemma getNewSubjectId_while_never_returns:
  assumes callable: "\<not> own_property obj ''hasOwnProperty''"
    and used: "own_property obj (base @ decimal max_exact)"
  shows "getNewSubjectId_while obj base (Finite max_exact) = None"
proof (rule ccontr)
  assume "getNewSubjectId_while obj base (Finite max_exact) \<noteq> None"
  then obtain y where y: "getNewSubjectId_while obj base (Finite max_exact) = Some y"
    by blast
  have stays: "increment (Finite max_exact) = Finite max_exact"
    by (simp add: increment_def round_to_double_def max_exact_def bit_length.simps)
  have "\<not> (obj = obj \<and> base = base \<and> Finite max_exact = Finite max_exact)"
  proof (rule getNewSubjectId_while.raw_induct[where
        P = "\<lambda>obj' base' index' y'.
               \<not> (obj' = obj \<and> base' = base \<and> index' = Finite max_exact)",
        OF _ y])
    fix loop :: "(string \<times> 'a) list \<Rightarrow> string \<Rightarrow> number \<Rightarrow> (error + string) option"
    fix obj' base' index' y'
    assume earlier: "\<And>a b c z. loop a b c = Some z \<Longrightarrow>
        \<not> (a = obj \<and> b = base \<and> c = Finite max_exact)"
    assume body: "(case hasOwnProperty obj' (base' @ String_of index') of
          Inl e \<Rightarrow> Some (Inl e)
        | Inr used \<Rightarrow>
            if used then loop obj' base' (increment index')
            else Some (Inr (base' @ String_of index'))) = Some y'"
    show "\<not> (obj' = obj \<and> base' = base \<and> index' = Finite max_exact)"
    proof
      assume "obj' = obj \<and> base' = base \<and> index' = Finite max_exact"
      then have "loop obj base (Finite max_exact) = Some y'"
        using body callable used by (simp add: hasOwnProperty_method stays String_of_exact)
      then show False
        using earlier by blast
    qed
  qed
  then show False
    by simp
qed

lemma used_run_bound:
  assumes "\<forall>m. index \<le> m \<and> m < n \<longrightarrow> own_property obj (base @ decimal m)"
  shows "n \<le> index + length obj"
proof (cases "index \<le> n")
  case False
  then show ?thesis by simp
next
  case True
  let ?f = "\<lambda>m. base @ decimal m"
  have inj: "inj_on ?f {index..<n}"
    by (auto simp: inj_on_def decimal_eq_iff)
  have "?f ` {index..<n} \<subseteq> fst ` set obj"
    using assms by (auto simp: own_property_iff)
  then have "card (?f ` {index..<n}) \<le> card (fst ` set obj)"
    by (intro card_mono) simp_all
  also have "\<dots> \<le> length obj"
    by (metis card_image_le card_length le_trans List.finite_set)
  finally have "card {index..<n} \<le> length obj"
    using inj by (simp add: card_image)
  then show ?thesis by simp
qed

text \<open>From every counter on there is a first id that is no key, and it is at most as
  far from the counter as the object has properties.\<close>

lemma first_unused:
  "\<exists>n. index \<le> n \<and> n \<le> index + length obj \<and> \<not> own_property obj (base @ decimal n) \<and>
       (\<forall>m. index \<le> m \<and> m < n \<longrightarrow> own_property obj (base @ decimal m))"
proof -
  let ?P = "\<lambda>n. index \<le> n \<and> \<not> own_property obj (base @ decimal n)"
  have "\<exists>n. ?P n"
  proof (rule ccontr)
    assume "\<not> (\<exists>n. ?P n)"
    then have "\<forall>m. index \<le> m \<and> m < index + length obj + 1 \<longrightarrow>
        own_property obj (base @ decimal m)"
      by blast
    then have "index + length obj + 1 \<le> index + length obj"
      by (rule used_run_bound)
    then show False
      by simp
  qed
  then have least: "?P (LEAST n. ?P n)"
    by (rule LeastI_ex)
  have below: "\<forall>m. index \<le> m \<and> m < (LEAST n. ?P n) \<longrightarrow> own_property obj (base @ decimal m)"
    using not_less_Least[of _ ?P] by blast
  then have "(LEAST n. ?P n) \<le> index + length obj"
    by (rule used_run_bound)
  then show ?thesis
    using least below by blast
qed

lemma Number_exact:
  "decimal_value ds \<le> max_exact \<Longrightarrow> Number ds = Finite (decimal_value ds)"
  by (simp add: Number_def round_to_double_def)

text \<open>What \<^verbatim>\<open>_getNewSubjectId\<close> returns, in the form in which the deletion uses it.\<close>

lemma getNewSubjectId_returns:
  assumes "\<not> own_property (rules this) ''hasOwnProperty''"
    and "decimal_value (match_trailing_digits base) + length (rules this) \<le> max_exact"
  shows "\<exists>n. getNewSubjectId this (Some base)
               = Some (Inr (replace_trailing_digits base @ decimal n))
           \<and> decimal_value (match_trailing_digits base) \<le> n
           \<and> n \<le> decimal_value (match_trailing_digits base) + length (rules this)
           \<and> \<not> own_property (rules this) (replace_trailing_digits base @ decimal n)
           \<and> (\<forall>m. decimal_value (match_trailing_digits base) \<le> m \<and> m < n \<longrightarrow>
                 own_property (rules this) (replace_trailing_digits base @ decimal m))"
proof -
  let ?start = "decimal_value (match_trailing_digits base)"
  let ?base = "replace_trailing_digits base"
  obtain n where n: "?start \<le> n" "n \<le> ?start + length (rules this)"
    "\<not> own_property (rules this) (?base @ decimal n)"
    "\<forall>m. ?start \<le> m \<and> m < n \<longrightarrow> own_property (rules this) (?base @ decimal m)"
    using first_unused[of ?start "rules this" ?base] by blast
  have exact: "n \<le> max_exact"
    using n(2) assms(2) by simp
  have "getNewSubjectId_while (rules this) ?base (Finite ?start)
      = Some (Inr (?base @ decimal n))"
    using assms(1) exact n(3) n(1) n(4) by (rule getNewSubjectId_while_returns)
  moreover have "Number (match_trailing_digits base) = Finite ?start"
    using assms(2) by (simp add: Number_exact)
  ultimately have "getNewSubjectId this (Some base) = Some (Inr (?base @ decimal n))"
    by (simp add: getNewSubjectId_def)
  then show ?thesis
    using n by blast
qed

lemmas id_eval = getNewSubjectId_def match_trailing_digits_def replace_trailing_digits_def
  is_digit_def Number_def round_to_double_def decimal_value_def max_exact_def increment_def
  digit_val_def digit_char_def String_of_def decimal.simps hasOwnProperty_def
  own_property_def getNewSubjectId_while.simps

text \<open>
  C8, as stated, at the base \<^verbatim>\<open>#owner\<close>, which ends in no digit, on the empty store:
  the generated id is \<^verbatim>\<open>#owner0\<close>, so the count starts from 0 and not from 1.
\<close>

theorem getNewSubjectId_starts_at_zero_counterexample:
  "match_trailing_digits ''#owner'' = [] \<and>
   getNewSubjectId \<lparr>defaultAccessTo = None, rules = ([] :: unit AclRule object)\<rparr> (Some ''#owner'')
     = Some (Inr ''#owner0'')"
  by (simp add: id_eval)

text \<open>
  Two more runs that the claim as stated does not allow for. On a store with a rule
  under the subject id \<^verbatim>\<open>hasOwnProperty\<close> the generator throws. On a store with a
  rule under \<^verbatim>\<open>x9007199254740992\<close> and that base, the counter starts from \<open>2^53\<close>,
  the increment leaves it there, and the generator never returns. And at the base
  \<^verbatim>\<open>x9007199254740993\<close> on the empty store, the number that the trailing digits write
  is no double: the counter starts from \<open>2^53\<close>, and the generated id is
  \<^verbatim>\<open>x9007199254740992\<close>, with a number below the one of the base. At the base
  \<^verbatim>\<open>x1000000000000000000000\<close> the generated id is \<^verbatim>\<open>x1e+21\<close>.
\<close>

lemma getNewSubjectId_throws_example:
  "getNewSubjectId
     \<lparr>defaultAccessTo = None,
      rules = [(''hasOwnProperty'', AclRule_new {Read} {Public} None None :: unit AclRule)]\<rparr>
     (Some ''#owner'') = Some (Inl NotAFunctionError)"
  by (simp add: getNewSubjectId_def getNewSubjectId_while_throws own_property_def)

lemma getNewSubjectId_never_returns_example:
  "getNewSubjectId
     \<lparr>defaultAccessTo = None,
      rules = [(''x9007199254740992'', AclRule_new {Read} {Public} None None :: unit AclRule)]\<rparr>
     (Some ''x9007199254740992'') = None"
proof -
  let ?obj = "[(''x9007199254740992'', AclRule_new {Read} {Public} None None :: unit AclRule)]"
  have digits: "match_trailing_digits ''x9007199254740992'' = ''9007199254740992''"
    by (simp add: match_trailing_digits_def is_digit_def)
  have base: "replace_trailing_digits ''x9007199254740992'' = ''x''"
    by (simp add: replace_trailing_digits_def is_digit_def)
  have number: "Number ''9007199254740992'' = Finite max_exact"
    by (simp add: Number_def round_to_double_def decimal_value_def max_exact_def digit_val_def)
  have string: "decimal max_exact = ''9007199254740992''"
    by (simp add: max_exact_def decimal.simps digit_char_def)
  have "getNewSubjectId_while ?obj ''x'' (Finite max_exact) = None"
    by (rule getNewSubjectId_while_never_returns) (simp_all add: own_property_def string)
  then show ?thesis
    by (simp add: getNewSubjectId_def digits base number)
qed

lemma getNewSubjectId_rounds_example:
  "getNewSubjectId \<lparr>defaultAccessTo = None, rules = ([] :: unit AclRule object)\<rparr>
     (Some ''x9007199254740993'') = Some (Inr ''x9007199254740992'')"
proof -
  have digits: "match_trailing_digits ''x9007199254740993'' = ''9007199254740993''"
    by (simp add: match_trailing_digits_def is_digit_def)
  have base: "replace_trailing_digits ''x9007199254740993'' = ''x''"
    by (simp add: replace_trailing_digits_def is_digit_def)
  have written: "decimal_value ''9007199254740993'' = 9007199254740993"
    by (simp add: decimal_value_def digit_val_def)
  have bits: "bit_length 9007199254740993 = 54"
    by (simp add: bit_length.simps)
  have number: "Number ''9007199254740993'' = Finite max_exact"
    by (simp add: Number_def written round_to_double_def max_exact_def bits)
  have string: "decimal max_exact = ''9007199254740992''"
    by (simp add: max_exact_def decimal.simps digit_char_def)
  show ?thesis
    by (simp add: getNewSubjectId_def digits base number
        getNewSubjectId_while.simps[of "[]" "''x''" "Finite max_exact"] hasOwnProperty_def
        own_property_def String_of_exact string)
qed

lemma getNewSubjectId_exponent_example:
  "getNewSubjectId \<lparr>defaultAccessTo = None, rules = ([] :: unit AclRule object)\<rparr>
     (Some ''x1000000000000000000000'') = Some (Inr ''x1e+21'')"
proof -
  have digits: "match_trailing_digits ''x1000000000000000000000'' = ''1000000000000000000000''"
    by (simp add: match_trailing_digits_def is_digit_def)
  have base: "replace_trailing_digits ''x1000000000000000000000'' = ''x''"
    by (simp add: replace_trailing_digits_def is_digit_def)
  have written: "decimal_value ''1000000000000000000000'' = 1000000000000000000000"
    by (simp add: decimal_value_def digit_val_def)
  have double: "round_to_double 1000000000000000000000 = Finite 1000000000000000000000"
    by (simp add: round_to_double_def max_exact_def bit_length.simps Let_def)
  have next_double: "round_to_double 2000000000000000000000 = Finite 2000000000000000000000"
    by (simp add: round_to_double_def max_exact_def bit_length.simps Let_def)
  have digits_of: "length (decimal 1000000000000000000000) = 22"
    by (simp add: decimal.simps)
  have shortest: "shortest_digits 1000000000000000000000 (Suc 0) = 1000000000000000000000"
    by (simp add: shortest_digits.simps[of 1000000000000000000000 "Suc 0"] digits_of double
        next_double Let_def)
  have string: "String_of (Finite 1000000000000000000000) = ''1e+21''"
    using shortest
    by (simp add: String_of_def max_exact_def digits_of Let_def strip_zeros_def decimal.simps
        digit_char_def)
  show ?thesis
    by (simp add: getNewSubjectId_def digits base Number_def written double
        getNewSubjectId_while.simps[of "[]" "''x''" "Finite 1000000000000000000000"]
        hasOwnProperty_def own_property_def string)
qed

text \<open>
  C8, amended. On a store with no rule under the subject id \<^verbatim>\<open>hasOwnProperty\<close>, and
  for a base such that the number written by its trailing digits (0 when the base ends
  in no digit) plus the number of stored rules is at most \<open>2^53\<close>, the generator
  returns. The generated id is not a key of the store. It is the base without its
  trailing digits, followed by the smallest number \<open>n\<close> that is at least the number
  written by those trailing digits and gives an id that is not a key; \<open>n\<close> exceeds that
  start by at most the number of keys. A call without a base takes the base
  \<^verbatim>\<open>new-acl-rule-1\<close>, and so starts from 1.
\<close>

theorem getNewSubjectId_smallest_unused:
  assumes "\<not> own_property (rules this) ''hasOwnProperty''"
    and "decimal_value (match_trailing_digits base) + length (rules this) \<le> max_exact"
  shows "(\<exists>n. getNewSubjectId this (Some base)
                = Some (Inr (replace_trailing_digits base @ decimal n))
            \<and> decimal_value (match_trailing_digits base) \<le> n
            \<and> n \<le> decimal_value (match_trailing_digits base) + length (rules this)
            \<and> \<not> own_property (rules this) (replace_trailing_digits base @ decimal n)
            \<and> (\<forall>m. decimal_value (match_trailing_digits base) \<le> m \<and> m < n \<longrightarrow>
                  own_property (rules this) (replace_trailing_digits base @ decimal m)))
       \<and> getNewSubjectId this None = getNewSubjectId this (Some ''new-acl-rule-1'')"
proof -
  have "getNewSubjectId this None = getNewSubjectId this (Some ''new-acl-rule-1'')"
    by (simp add: getNewSubjectId_def)
  with getNewSubjectId_returns[OF assms] show ?thesis
    by (rule conjI)
qed

text \<open>
  C8, amended, at the base \<^verbatim>\<open>x007\<close> on a store with the keys \<^verbatim>\<open>x7\<close> and \<^verbatim>\<open>x9\<close>:
  no rule is stored under \<^verbatim>\<open>hasOwnProperty\<close>, the count starts from 7, 7 + 2 is at
  most \<open>2^53\<close>, and the generated id is \<^verbatim>\<open>x8\<close>, which is no key.
\<close>

theorem getNewSubjectId_smallest_unused_witness:
  "\<not> own_property
        [(''x7'', AclRule_new {Read} {Public} None None :: unit AclRule),
         (''x9'', AclRule_new {Write} {Public} None None)] ''hasOwnProperty''
   \<and> decimal_value (match_trailing_digits ''x007'') + 2 \<le> max_exact
   \<and> getNewSubjectId
       \<lparr>defaultAccessTo = None,
        rules = [(''x7'', AclRule_new {Read} {Public} None None :: unit AclRule),
                 (''x9'', AclRule_new {Write} {Public} None None)]\<rparr>
       (Some ''x007'') = Some (Inr ''x8'')
   \<and> \<not> own_property
        [(''x7'', AclRule_new {Read} {Public} None None :: unit AclRule),
         (''x9'', AclRule_new {Write} {Public} None None)] ''x8''"
proof -
  let ?doc = "\<lparr>defaultAccessTo = None,
        rules = [(''x7'', AclRule_new {Read} {Public} None None :: unit AclRule),
                 (''x9'', AclRule_new {Write} {Public} None None)]\<rparr>"
  have callable: "\<not> own_property (rules ?doc) ''hasOwnProperty''"
    by (simp add: own_property_def)
  have bound: "decimal_value (match_trailing_digits ''x007'') + length (rules ?doc) \<le> max_exact"
    by (simp add: match_trailing_digits_def is_digit_def decimal_value_def digit_val_def
        max_exact_def)
  have run: "getNewSubjectId ?doc (Some ''x007'') = Some (Inr ''x8'')"
    by (simp add: id_eval)
  from getNewSubjectId_smallest_unused[OF callable bound]
  obtain n where "getNewSubjectId ?doc (Some ''x007'')
        = Some (Inr (replace_trailing_digits ''x007'' @ decimal n))"
    "\<not> own_property (rules ?doc) (replace_trailing_digits ''x007'' @ decimal n)"
    by blast
  then have "\<not> own_property (rules ?doc) ''x8''"
    using run by simp
  then show ?thesis
    using callable bound run by simp
qed


section \<open>Deletion\<close>












lemmas store_eval = deleteBySubject_def get_property_def delete_property_def set_property_def
  hasOwnProperty_def own_property_def is_array_index_def is_digit_def and_then_def Let_def


text \<open>
  Two more runs that the claim as stated does not allow for. On a store with a rule
  under the subject id \<^verbatim>\<open>hasOwnProperty\<close> the first line of \<^verbatim>\<open>deleteBySubject\<close>
  throws. On a store whose only rule has the subject id \<^verbatim>\<open>x9007199254740992\<close> and
  is split into two fragments, the first fragment gets that id back, the counter of
  the second call starts from \<open>2^53\<close> and stays there, and \<^verbatim>\<open>deleteBySubject\<close> never
  returns.
\<close>

lemma deleteBySubject_throws_example:
  "deleteBySubject
     \<lparr>defaultAccessTo = Some ''doc'',
      rules = [(''hasOwnProperty'',
                AclRule_new {Read, Write} {WebId ''A''} (Some (Label ''doc'')) None)]\<rparr>
     ''hasOwnProperty''
     (Some (AclRule_new {Read} {WebId ''A''} (Some (Label ''doc'')) None :: unit AclRule))
   = Some (Inl NotAFunctionError)"
  by (simp add: deleteBySubject_def hasOwnProperty_def own_property_def)

lemma deleteBySubject_never_returns_example:
  "deleteBySubject
     \<lparr>defaultAccessTo = Some ''doc'',
      rules = [(''x9007199254740992'',
                AclRule_new {Read, Write} {WebId ''A'', WebId ''B''} (Some (Label ''doc'')) None)]\<rparr>
     ''x9007199254740992''
     (Some (AclRule_new {Read} {WebId ''A''} (Some (Label ''doc'')) None :: unit AclRule))
   = None"
proof -
  have fragments:
    "subtract (AclRule_new {Read, Write} {WebId ''A'', WebId ''B''} (Some (Label ''doc'')) None)
       (AclRule_new {Read} {WebId ''A''} (Some (Label ''doc'')) None :: unit AclRule)
     = [AclRule_new {Read, Write} {WebId ''B''} (Some (Label ''doc'')) None,
        AclRule_new {Write} {WebId ''A''} (Some (Label ''doc'')) None]"
    by (simp add: rule_eval)
  have digits: "match_trailing_digits ''x9007199254740992'' = ''9007199254740992''"
    by (simp add: match_trailing_digits_def is_digit_def)
  have base: "replace_trailing_digits ''x9007199254740992'' = ''x''"
    by (simp add: replace_trailing_digits_def is_digit_def)
  have number: "Number ''9007199254740992'' = Finite max_exact"
    by (simp add: Number_def round_to_double_def decimal_value_def max_exact_def digit_val_def)
  have string: "decimal max_exact = ''9007199254740992''"
    by (simp add: max_exact_def decimal.simps digit_char_def)
  have first_id: "getNewSubjectId \<lparr>defaultAccessTo = x, rules = []\<rparr> (Some ''x9007199254740992'')
      = Some (Inr ''x9007199254740992'')" for x :: "string option"
    by (simp add: getNewSubjectId_def digits base number
        getNewSubjectId_while.simps[of "[]" "''x''" "Finite max_exact"] hasOwnProperty_def
        own_property_def String_of_exact string)
  have stuck: "getNewSubjectId_while [(''x9007199254740992'', r)] ''x'' (Finite max_exact)
      = None"
    for r :: "unit AclRule"
    by (rule getNewSubjectId_while_never_returns) (simp_all add: own_property_def string)
  have second_id: "getNewSubjectId \<lparr>defaultAccessTo = x, rules = [(''x9007199254740992'', r)]\<rparr>
      (Some ''x9007199254740992'') = None" for x :: "string option" and r :: "unit AclRule"
    by (simp add: getNewSubjectId_def digits base number stuck)
  show ?thesis
    by (simp add: fragments store_eval first_id second_id)
qed



section \<open>The scenario of deleteRule\<close>

lemmas hasRule_eval = rule_eval hasRule_def ruleFromArgs_def AclRule_from_def getDefaultAccessTo_def
  hasRule_while.simps Object_values_def Let_def

text \<open>
  C4. A store with a default target \<open>d\<close> gets one rule by \<^verbatim>\<open>addRule\<close>, under the
  subject id \<^verbatim>\<open>s1\<close>, granting \<^verbatim>\<open>READ\<close> and \<^verbatim>\<open>WRITE\<close> to the agents A and B. Then
  \<^verbatim>\<open>hasRule(READ, A)\<close> returns true; \<^verbatim>\<open>deleteRule(READ, A)\<close> leaves the store of the
  two fragments; and in that store \<^verbatim>\<open>hasRule(READ, A)\<close> returns false,
  \<^verbatim>\<open>hasRule(WRITE, A)\<close> returns true and \<^verbatim>\<open>hasRule([READ, WRITE], B)\<close> returns true.
\<close>

theorem delete_scenario:
  assumes "d \<noteq> []"
  shows "addRule \<lparr>defaultAccessTo = Some d, rules = []\<rparr> (IsPermissions {Read, Write})
           {WebId ''A'', WebId ''B''} None (Some ''s1'') = Some (Inr (scenario_store d))
       \<and> hasRule (scenario_store d) (IsPermissions {Read}) {WebId ''A''} None = Inr True
       \<and> deleteRule (scenario_store d) (IsPermissions {Read}) {WebId ''A''} None
           = Some (Inr (scenario_store_after d))
       \<and> hasRule (scenario_store_after d) (IsPermissions {Read}) {WebId ''A''} None = Inr False
       \<and> hasRule (scenario_store_after d) (IsPermissions {Write}) {WebId ''A''} None = Inr True
       \<and> hasRule (scenario_store_after d) (IsPermissions {Read, Write}) {WebId ''B''} None
           = Inr True"
proof -
  have added: "addRule \<lparr>defaultAccessTo = Some d, rules = []\<rparr> (IsPermissions {Read, Write})
           {WebId ''A'', WebId ''B''} None (Some ''s1'') = Some (Inr (scenario_store d))"
    using assms
    by (simp add: addRule_def ruleFromArgs_def AclRule_from_def AclRule_new_def
        getDefaultAccessTo_def and_then_def set_property_def own_property_def
        is_array_index_def is_digit_def scenario_store_def)
  have before: "hasRule (scenario_store d) (IsPermissions {Read}) {WebId ''A''} None = Inr True"
    using assms by (simp add: hasRule_eval scenario_store_def)
  have toDelete: "ruleFromArgs (scenario_store d) (IsPermissions {Read}) {WebId ''A''} None
      = Inr (AclRule_new {Read} {WebId ''A''} (Some (Labels [d])) None)"
    using assms
    by (simp add: ruleFromArgs_def AclRule_from_def AclRule_new_def getDefaultAccessTo_def
        scenario_store_def)
  have fragments:
    "subtract (AclRule_new {Read, Write} {WebId ''A'', WebId ''B''} (Some (Labels [d])) None)
       (AclRule_new {Read} {WebId ''A''} (Some (Labels [d])) None :: unit AclRule)
     = [AclRule_new {Read, Write} {WebId ''B''} (Some (Labels [d])) None,
        AclRule_new {Write} {WebId ''A''} (Some (Labels [d])) None]"
    by (simp add: rule_eval)
  have first_id: "getNewSubjectId \<lparr>defaultAccessTo = x, rules = []\<rparr> (Some ''s1'')
      = Some (Inr ''s1'')"
    for x :: "string option"
    by (simp add: id_eval)
  have second_id: "getNewSubjectId \<lparr>defaultAccessTo = x, rules = [(''s1'', r)]\<rparr> (Some ''s1'')
      = Some (Inr ''s2'')" for x :: "string option" and r :: "unit AclRule"
    by (simp add: id_eval)
  have deleted: "deleteRule (scenario_store d) (IsPermissions {Read}) {WebId ''A''} None
           = Some (Inr (scenario_store_after d))"
    unfolding deleteRule_def toDelete
    by (simp add: scenario_store_def scenario_store_after_def Object_keys_def store_eval
        fragments first_id second_id)
  have after1: "hasRule (scenario_store_after d) (IsPermissions {Read}) {WebId ''A''} None = Inr False"
    using assms by (simp add: hasRule_eval scenario_store_after_def)
  have after2: "hasRule (scenario_store_after d) (IsPermissions {Write}) {WebId ''A''} None = Inr True"
    using assms by (simp add: hasRule_eval scenario_store_after_def)
  have after3: "hasRule (scenario_store_after d) (IsPermissions {Read, Write}) {WebId ''B''} None
           = Inr True"
    using assms by (simp add: hasRule_eval scenario_store_after_def)
  show ?thesis
    by (intro conjI added before deleted after1 after2 after3)
qed

text \<open>
  C4 with the default target \<^verbatim>\<open>https://pod.example/file\<close>.
\<close>

theorem delete_scenario_witness:
  "hasRule (scenario_store ''https://pod.example/file'') (IsPermissions {Read}) {WebId ''A''} None
     = Inr True
   \<and> deleteRule (scenario_store ''https://pod.example/file'') (IsPermissions {Read}) {WebId ''A''}
       None = Some (Inr (scenario_store_after ''https://pod.example/file''))
   \<and> hasRule (scenario_store_after ''https://pod.example/file'') (IsPermissions {Read})
       {WebId ''A''} None = Inr False"
proof -
  have d: "''https://pod.example/file'' \<noteq> []"
    by simp
  from delete_scenario[OF d] show ?thesis
    by blast
qed


section \<open>Queries leave the store unchanged\<close>

lemma grows_refl: "grows st st"
  by (simp add: grows_def)

lemma grows_trans: "grows st st1 \<Longrightarrow> grows st1 st2 \<Longrightarrow> grows st st2"
  by (auto simp: grows_def)

lemma AclRule_new_h_grows: "grows st (snd (AclRule_new_h perms ags acc options st))"
  by (simp add: AclRule_new_h_def grows_def Let_def)

lemma AclRule_new_h_ref:
  "obj_accessTo (fst (AclRule_new_h perms ags acc options st)) = length (arrays st)"
  "length (arrays (snd (AclRule_new_h perms ags acc options st))) = Suc (length (arrays st))"
  by (simp_all add: AclRule_new_h_def Let_def)

lemma subtract_h_grows: "grows st (snd (subtract_h first second st))"
proof -
  obtain rule1 st1 where 1: "AclRule_new_h (obj_permissions first)
      (Agents_subtract (obj_agents first) (obj_agents second))
      (Some (ArrayRef (obj_accessTo first))) (Some (getOptions_h first)) st = (rule1, st1)"
    by (cases "AclRule_new_h (obj_permissions first)
      (Agents_subtract (obj_agents first) (obj_agents second))
      (Some (ArrayRef (obj_accessTo first))) (Some (getOptions_h first)) st") 
  obtain rule2 st2 where 2: "AclRule_new_h
      (Permissions_subtract (obj_permissions first) (obj_permissions second))
      (Agents_common (obj_agents first) (obj_agents second))
      (Some (ArrayRef (obj_accessTo first))) (Some (getOptions_h first)) st1 = (rule2, st2)"
    by (cases "AclRule_new_h
      (Permissions_subtract (obj_permissions first) (obj_permissions second))
      (Agents_common (obj_agents first) (obj_agents second))
      (Some (ArrayRef (obj_accessTo first))) (Some (getOptions_h first)) st1")
  have "grows st st1" using AclRule_new_h_grows[of st] 1 by (metis snd_conv)
  moreover have "grows st1 st2" using AclRule_new_h_grows[of st1] 2 by (metis snd_conv)
  moreover have "snd (subtract_h first second st) = st2"
    by (simp add: subtract_h_def Let_def 1 2)
  ultimately show ?thesis by (metis grows_trans)
qed

lemma hasRule_while_h_grows: "grows st (snd (hasRule_while_h ws r acc st))"
proof (induction ws r acc st rule: hasRule_while_h.induct)
  case (1 ws r acc st)
  show ?case
  proof (cases "length ws \<noteq> 0")
    case True
    have "grows (snd (subtract_h (last ws) r st))
        (snd (hasRule_while_h (butlast ws) r (acc @ fst (subtract_h (last ws) r st)) (snd (subtract_h (last ws) r st))))"
      using 1[OF True refl refl] .
    then have "grows st (snd (hasRule_while_h (butlast ws) r (acc @ fst (subtract_h (last ws) r st)) (snd (subtract_h (last ws) r st))))"
      using subtract_h_grows grows_trans by blast
    then show ?thesis
      using True by (simp add: hasRule_while_h.simps[of ws r acc st] Let_def)
  next
    case False
    then show ?thesis
      by (simp add: hasRule_while_h.simps[of "[]"] grows_refl)
  qed
qed

lemma hasRule_for_h_grows: "grows st (snd (hasRule_for_h rs ws st))"
proof (induction rs arbitrary: ws st)
  case Nil
  then show ?case by (simp add: grows_refl)
next
  case (Cons r rs)
  obtain new st1 where w: "hasRule_while_h ws r [] st = (new, st1)"
    by (cases "hasRule_while_h ws r [] st")
  have g1: "grows st st1"
    using hasRule_while_h_grows[of st ws r "[]"] w by simp
  show ?case
  proof (cases "length new = 0")
    case True
    then show ?thesis using w g1 by simp
  next
    case False
    then have "snd (hasRule_for_h (r # rs) ws st) = snd (hasRule_for_h rs new st1)"
      using w by simp
    then show ?thesis
      using Cons.IH[of st1 new] g1 grows_trans by metis
  qed
qed

lemma AclRule_from_h_alloc:
  "\<exists>c. arrays (snd (AclRule_from_h fv ags acc opts st)) = arrays st @ [c] \<and>
       obj_accessTo (fst (AclRule_from_h fv ags acc opts st)) = length (arrays st) \<and>
       this_rules (snd (AclRule_from_h fv ags acc opts st)) = this_rules st \<and>
       this_defaultAccessTo (snd (AclRule_from_h fv ags acc opts st)) = this_defaultAccessTo st"
  by (cases fv) (simp_all add: AclRule_from_h_def clone_h_def AclRule_new_h_def Let_def)

lemma ruleFromArgs_h_grows: "grows st (snd (ruleFromArgs_h fv ags acc st))"
proof -
  obtain rule st1 where f: "AclRule_from_h fv ags acc None st = (rule, st1)"
    by (cases "AclRule_from_h fv ags acc None st")
  from AclRule_from_h_alloc[of fv ags acc None st] f obtain c where c:
    "arrays st1 = arrays st @ [c]" "obj_accessTo rule = length (arrays st)"
    "this_rules st1 = this_rules st" "this_defaultAccessTo st1 = this_defaultAccessTo st"
    by auto
  have pushed: "(arrays st1)[obj_accessTo rule := arrays st1 ! obj_accessTo rule @ [d]]
      = arrays st @ [c @ [d]]" for d
    by (simp add: c)
  show ?thesis
    by (auto simp: ruleFromArgs_h_def f c pushed grows_def split: sum.splits)
qed

lemma hasRule_h_grows: "grows st (snd (hasRule_h fv ags acc st))"
proof -
  obtain res st1 where r: "ruleFromArgs_h fv ags acc st = (res, st1)"
    by (cases "ruleFromArgs_h fv ags acc st")
  have g1: "grows st st1"
    using ruleFromArgs_h_grows[of st fv ags acc] r by simp
  show ?thesis
  proof (cases res)
    case (Inl e)
    then show ?thesis using r g1 by (simp add: hasRule_h_def)
  next
    case (Inr rule)
    obtain found st2 where h: "hasRule_for_h (Object_values (this_rules st1)) [rule] st1 = (found, st2)"
      by (cases "hasRule_for_h (Object_values (this_rules st1)) [rule] st1")
    have "grows st1 st2"
      using hasRule_for_h_grows[of st1 "Object_values (this_rules st1)" "[rule]"] h by simp
    then show ?thesis
      using r Inr h g1 by (simp add: hasRule_h_def) (metis grows_trans)
  qed
qed

lemma grows_store_value:
  assumes "grows st st'" and "well_formed st"
  shows "store_value st' = store_value st"
proof -
  from assms(1) obtain new where new: "arrays st' = arrays st @ new"
    and same: "this_rules st' = this_rules st" "this_defaultAccessTo st' = this_defaultAccessTo st"
    by (auto simp: grows_def)
  have "rule_value st' r = rule_value st r" if "(k, r) \<in> set (this_rules st)" for k r
  proof -
    have "obj_accessTo r < length (arrays st)"
      using that assms(2) by (force simp: well_formed_def Object_values_def)
    then show ?thesis
      by (simp add: rule_value_def new nth_append)
  qed
  then have "map (\<lambda>(k, r). (k, rule_value st' r)) (this_rules st)
      = map (\<lambda>(k, r). (k, rule_value st r)) (this_rules st)"
    by (intro map_cong) auto
  then show ?thesis
    by (simp add: store_value_def same)
qed

text \<open>
  The reading with shared arrays computes what the reading by value computes: on a
  well-formed state each query returns the result of the query of the first sections
  on the values the state stores.
\<close>

lemma grows_rule_value:
  "grows st st' \<Longrightarrow> allocated st r \<Longrightarrow> rule_value st' r = rule_value st r"
  by (auto simp: grows_def allocated_def rule_value_def nth_append)

lemma grows_allocated: "grows st st' \<Longrightarrow> allocated st r \<Longrightarrow> allocated st' r"
  by (auto simp: grows_def allocated_def)

lemma AclRule_new_h_value:
  assumes "AclRule_new_h perms ags acc options st = (rule, st1)"
  shows "rule_value st1 rule = AclRule_new perms ags (accessTo_value st acc) options"
    and "allocated st1 rule" and "grows st st1"
  using assms
  by (auto simp: AclRule_new_h_def AclRule_new_def rule_value_def accessTo_value_def Let_def
      allocated_def grows_def split: option.splits accessTo_val.splits)

lemma hasNoEffect_h_value: "hasNoEffect_h st r = hasNoEffect (rule_value st r)"
  by (simp add: hasNoEffect_h_def hasNoEffect_def rule_value_def)

lemma getOptions_h_value: "getOptions_h r = getOptions (rule_value st r)"
  by (simp add: getOptions_h_def getOptions_def rule_value_def)

lemma subtract_h_value:
  assumes "subtract_h first second st = (pieces, st2)" and "allocated st first"
  shows "map (rule_value st2) pieces = subtract (rule_value st first) (rule_value st second)"
    and "\<forall>f \<in> set pieces. allocated st2 f" and "grows st st2"
proof -
  obtain rule1 st1 where 1: "AclRule_new_h (obj_permissions first)
      (Agents_subtract (obj_agents first) (obj_agents second))
      (Some (ArrayRef (obj_accessTo first))) (Some (getOptions_h first)) st = (rule1, st1)"
    by (cases "AclRule_new_h (obj_permissions first)
      (Agents_subtract (obj_agents first) (obj_agents second))
      (Some (ArrayRef (obj_accessTo first))) (Some (getOptions_h first)) st")
  obtain rule2 st2' where 2: "AclRule_new_h
      (Permissions_subtract (obj_permissions first) (obj_permissions second))
      (Agents_common (obj_agents first) (obj_agents second))
      (Some (ArrayRef (obj_accessTo first))) (Some (getOptions_h first)) st1 = (rule2, st2')"
    by (cases "AclRule_new_h
      (Permissions_subtract (obj_permissions first) (obj_permissions second))
      (Agents_common (obj_agents first) (obj_agents second))
      (Some (ArrayRef (obj_accessTo first))) (Some (getOptions_h first)) st1")
  have res: "pieces = filter (\<lambda>rule. \<not> hasNoEffect_h st2 rule) [rule1, rule2]" "st2 = st2'"
    using assms(1) by (auto simp: subtract_h_def Let_def 1 2)
  note n1 = AclRule_new_h_value[OF 1] and n2 = AclRule_new_h_value[OF 2[folded res(2)]]
  have acc1: "accessTo_value st1 (Some (ArrayRef (obj_accessTo first)))
      = accessTo_value st (Some (ArrayRef (obj_accessTo first)))"
    using n1(3) assms(2) by (auto simp: accessTo_value_def grows_def allocated_def nth_append)
  have acc: "accessTo_value st (Some (ArrayRef (obj_accessTo first)))
      = Some (Labels (accessTo (rule_value st first)))"
    by (simp add: accessTo_value_def rule_value_def)
  have v1: "rule_value st2 rule1 = AclRule_new (permissions (rule_value st first))
      (Agents_subtract (agents (rule_value st first)) (agents (rule_value st second)))
      (Some (Labels (accessTo (rule_value st first)))) (Some (getOptions (rule_value st first)))"
    using grows_rule_value[OF n2(3) n1(2)] n1(1) acc
    by (simp add: getOptions_h_value[of first st]) (simp add: rule_value_def)
  have v2: "rule_value st2 rule2 = AclRule_new
      (Permissions_subtract (permissions (rule_value st first)) (permissions (rule_value st second)))
      (Agents_common (agents (rule_value st first)) (agents (rule_value st second)))
      (Some (Labels (accessTo (rule_value st first)))) (Some (getOptions (rule_value st first)))"
    using n2(1) acc acc1
    by (simp add: getOptions_h_value[of first st]) (simp add: rule_value_def)
  show "map (rule_value st2) pieces = subtract (rule_value st first) (rule_value st second)"
    by (simp add: res(1) subtract_def Let_def hasNoEffect_h_value filter_map comp_def v1 v2)
  show "\<forall>f \<in> set pieces. allocated st2 f"
    using n2(2) grows_allocated[OF n2(3) n1(2)] by (auto simp: res(1))
  show "grows st st2"
    using n1(3) n2(3) grows_trans by blast
qed

lemma grows_map_rule_value:
  "grows st st' \<Longrightarrow> \<forall>f \<in> set fs. allocated st f \<Longrightarrow> map (rule_value st') fs = map (rule_value st) fs"
  by (simp add: grows_rule_value)

lemma hasRule_while_h_value:
  assumes "\<forall>f \<in> set ws. allocated st f" and "\<forall>f \<in> set new. allocated st f"
    and "allocated st r"
  shows "map (rule_value (snd (hasRule_while_h ws r new st))) (fst (hasRule_while_h ws r new st))
           = hasRule_while (map (rule_value st) ws) (rule_value st r) (map (rule_value st) new)
       \<and> (\<forall>f \<in> set (fst (hasRule_while_h ws r new st)).
            allocated (snd (hasRule_while_h ws r new st)) f)"
  using assms
proof (induction ws r new st rule: hasRule_while_h.induct)
  case (1 ws r new st)
  show ?case
  proof (cases "length ws \<noteq> 0")
    case False
    then show ?thesis
      using 1(3) by (simp add: hasRule_while_h.simps[of "[]"] hasRule_while.simps[of "[]"])
  next
    case True
    obtain pieces st1 where p: "subtract_h (last ws) r st = (pieces, st1)"
      by (cases "subtract_h (last ws) r st")
    have last_ok: "allocated st (last ws)"
      using True 1(2) by simp
    note sv = subtract_h_value[OF p last_ok]
    have ws1: "\<forall>f \<in> set (butlast ws). allocated st1 f"
      using 1(2) sv(3) by (meson grows_allocated in_set_butlastD)
    have new1: "\<forall>f \<in> set (new @ pieces). allocated st1 f"
      using 1(3) sv(2,3) by (auto intro: grows_allocated)
    have r1: "allocated st1 r" and r_val: "rule_value st1 r = rule_value st r"
      using 1(4) sv(3) by (simp_all add: grows_allocated grows_rule_value)
    have IH: "map (rule_value (snd (hasRule_while_h (butlast ws) r (new @ pieces) st1)))
             (fst (hasRule_while_h (butlast ws) r (new @ pieces) st1))
           = hasRule_while (map (rule_value st1) (butlast ws)) (rule_value st1 r)
               (map (rule_value st1) (new @ pieces))
       \<and> (\<forall>f \<in> set (fst (hasRule_while_h (butlast ws) r (new @ pieces) st1)).
            allocated (snd (hasRule_while_h (butlast ws) r (new @ pieces) st1)) f)"
      using 1(1)[OF True refl refl] ws1 new1 r1 by (simp add: p)
    have unfold_h: "hasRule_while_h ws r new st = hasRule_while_h (butlast ws) r (new @ pieces) st1"
      using True by (simp add: hasRule_while_h.simps[of ws r new st] Let_def p)
    have "hasRule_while (map (rule_value st) ws) (rule_value st r) (map (rule_value st) new)
        = hasRule_while (map (rule_value st) (butlast ws)) (rule_value st r)
            (map (rule_value st) new @ subtract (rule_value st (last ws)) (rule_value st r))"
      using True
      by (simp add: hasRule_while.simps[of "map (rule_value st) ws"] Let_def last_map map_butlast)
    also have "\<dots> = hasRule_while (map (rule_value st1) (butlast ws)) (rule_value st1 r)
               (map (rule_value st1) (new @ pieces))"
    proof -
      have "\<forall>f \<in> set (butlast ws). allocated st f"
        using 1(2) by (meson in_set_butlastD)
      then have eq1: "map (rule_value st1) (butlast ws) = map (rule_value st) (butlast ws)"
        by (rule grows_map_rule_value[OF sv(3)])
      have eq2: "map (rule_value st1) new = map (rule_value st) new"
        by (rule grows_map_rule_value[OF sv(3) 1(3)])
      show ?thesis
        by (simp only: eq1 eq2 r_val sv(1) map_append)
    qed
    finally show ?thesis
      using IH unfold_h by simp
  qed
qed


lemma hasRule_for_h_value:
  assumes "\<forall>f \<in> set ws. allocated st f" and "\<forall>r \<in> set rs. allocated st r"
  shows "fst (hasRule_for_h rs ws st)
           = hasRule_for (map (rule_value st) rs) (map (rule_value st) ws)"
  using assms
proof (induction rs arbitrary: ws st)
  case Nil
  then show ?case by simp
next
  case (Cons r rs)
  obtain new st1 where w: "hasRule_while_h ws r [] st = (new, st1)"
    by (cases "hasRule_while_h ws r [] st")
  have r_ok: "allocated st r"
    using Cons.prems(2) by simp
  from hasRule_while_h_value[OF Cons.prems(1) _ r_ok, of "[]"] w
  have new_val: "map (rule_value st1) new
        = hasRule_while (map (rule_value st) ws) (rule_value st r) []"
    and new_ok: "\<forall>f \<in> set new. allocated st1 f"
    by simp_all
  have g: "grows st st1"
    using hasRule_while_h_grows[of st ws r "[]"] w by simp
  have rs_ok: "\<forall>r \<in> set rs. allocated st1 r"
    using Cons.prems(2) g by (auto intro: grows_allocated)
  have rs_val: "map (rule_value st1) rs = map (rule_value st) rs"
    using Cons.prems(2) by (intro grows_map_rule_value[OF g]) simp
  show ?case
  proof (cases "length new = 0")
    case True
    then have "hasRule_while (map (rule_value st) ws) (rule_value st r) [] = []"
      using new_val by simp
    then show ?thesis
      using True w by simp
  next
    case False
    then have "hasRule_while (map (rule_value st) ws) (rule_value st r) [] \<noteq> []"
      using new_val by (metis length_0_conv map_is_Nil_conv)
    moreover have "fst (hasRule_for_h rs new st1)
        = hasRule_for (map (rule_value st1) rs) (map (rule_value st1) new)"
      by (rule Cons.IH[OF new_ok rs_ok])
    ultimately show ?thesis
      using False w by (simp add: rs_val new_val)
  qed
qed

lemma AclRule_from_h_value:
  assumes "AclRule_from_h fv ags acc options st = (rule, st1)"
  shows "rule_value st1 rule = AclRule_from (firstVal_value st fv) ags (accessTo_value st acc) options"
    and "allocated st1 rule" and "grows st st1"
proof -
  show "rule_value st1 rule = AclRule_from (firstVal_value st fv) ags (accessTo_value st acc) options"
  proof (cases fv)
    case (IsRule_h r)
    then have "AclRule_new_h (obj_permissions r) (obj_agents r) (Some (ArrayRef (obj_accessTo r)))
        (Some (getOptions_h r)) st = (rule, st1)"
      using assms by (simp add: AclRule_from_h_def clone_h_def)
    from AclRule_new_h_value(1)[OF this] show ?thesis
      using IsRule_h
      by (simp add: AclRule_from_def firstVal_value_def clone_def getOptions_h_value[of r st])
         (simp add: rule_value_def accessTo_value_def)
  next
    case (IsPermissions_h perms)
    then have "AclRule_new_h perms ags acc options st = (rule, st1)"
      using assms by (simp add: AclRule_from_h_def)
    from AclRule_new_h_value(1)[OF this] show ?thesis
      using IsPermissions_h by (simp add: AclRule_from_def firstVal_value_def)
  qed
  have "\<exists>p a c opts. AclRule_new_h p a c opts st = (rule, st1)"
    using assms by (cases fv) (auto simp: AclRule_from_h_def clone_h_def)
  then show "allocated st1 rule" and "grows st st1"
    using AclRule_new_h_value(2,3) by blast+
qed

lemma getDefaultAccessTo_h_value:
  "this_defaultAccessTo st1 = this_defaultAccessTo st \<Longrightarrow>
     getDefaultAccessTo_h st1 = getDefaultAccessTo (store_value st)"
  by (simp add: getDefaultAccessTo_h_def getDefaultAccessTo_def store_value_def)

lemma ruleFromArgs_h_value:
  assumes "ruleFromArgs_h fv ags acc st = (res, st1)"
  shows "(case res of Inl e \<Rightarrow> Inl e | Inr rule \<Rightarrow> Inr (rule_value st1 rule))
           = ruleFromArgs (store_value st) (firstVal_value st fv) ags (accessTo_value st acc)
       \<and> (case res of Inl e \<Rightarrow> True | Inr rule \<Rightarrow> allocated st1 rule)"
proof -
  obtain rule st0 where f: "AclRule_from_h fv ags acc None st = (rule, st0)"
    by (cases "AclRule_from_h fv ags acc None st")
  note fv = AclRule_from_h_value[OF f]
  let ?v = "AclRule_from (firstVal_value st fv) ags (accessTo_value st acc) None"
  have d: "getDefaultAccessTo_h st0 = getDefaultAccessTo (store_value st)"
    using fv(3) by (intro getDefaultAccessTo_h_value) (simp add: grows_def)
  have "arrays st0 ! obj_accessTo rule = accessTo (rule_value st0 rule)"
    by (simp add: rule_value_def)
  then have elements: "arrays st0 ! obj_accessTo rule = accessTo ?v"
    by (simp only: fv(1))
  show ?thesis
  proof (cases "length (arrays st0 ! obj_accessTo rule) = 0")
    case False
    then have "res = Inr rule" "st1 = st0"
      using assms by (simp_all add: ruleFromArgs_h_def f)
    moreover have "ruleFromArgs (store_value st) (firstVal_value st fv) ags (accessTo_value st acc)
        = Inr ?v"
      using False by (simp add: ruleFromArgs_def elements)
    ultimately show ?thesis
      using fv(1,2) by simp
  next
    case True
    show ?thesis
    proof (cases "getDefaultAccessTo_h st0")
      case (Inl e)
      then have "res = Inl e"
        using assms True by (simp add: ruleFromArgs_h_def f)
      moreover have "ruleFromArgs (store_value st) (firstVal_value st fv) ags
          (accessTo_value st acc) = Inl e"
        using True Inl by (simp add: ruleFromArgs_def elements d[symmetric])
      ultimately show ?thesis
        by simp
    next
      case (Inr x)
      let ?st1 = "st0\<lparr>arrays := (arrays st0)
                   [obj_accessTo rule := arrays st0 ! obj_accessTo rule @ [x]]\<rparr>"
      have res: "res = Inr rule" "st1 = ?st1"
        using assms True Inr by (simp_all add: ruleFromArgs_h_def f)
      have "rule_value ?st1 rule = (rule_value st0 rule)\<lparr>accessTo := accessTo (rule_value st0 rule) @ [x]\<rparr>"
        using fv(2) by (simp add: rule_value_def allocated_def)
      then have "rule_value ?st1 rule = ?v\<lparr>accessTo := accessTo ?v @ [x]\<rparr>"
        by (simp only: fv(1))
      moreover have "ruleFromArgs (store_value st) (firstVal_value st fv) ags
          (accessTo_value st acc) = Inr (?v\<lparr>accessTo := accessTo ?v @ [x]\<rparr>)"
        using True Inr by (simp add: ruleFromArgs_def elements d[symmetric])
      moreover have "allocated ?st1 rule"
        using fv(2) by (simp add: allocated_def)
      ultimately show ?thesis
        using res by simp
    qed
  qed
qed

lemma store_value_rules:
  "Object_values (rules (store_value st)) = map (rule_value st) (Object_values (this_rules st))"
  by (simp add: store_value_def Object_values_def comp_def case_prod_unfold)

lemma hasRule_h_value:
  assumes "well_formed st"
  shows "fst (hasRule_h fv ags acc st)
           = hasRule (store_value st) (firstVal_value st fv) ags (accessTo_value st acc)"
proof -
  obtain res st1 where r: "ruleFromArgs_h fv ags acc st = (res, st1)"
    by (cases "ruleFromArgs_h fv ags acc st")
  note rv = conjunct1[OF ruleFromArgs_h_value[OF r]] conjunct2[OF ruleFromArgs_h_value[OF r]]
  have g: "grows st st1"
    using ruleFromArgs_h_grows[of st fv ags acc] r by simp
  show ?thesis
  proof (cases res)
    case (Inl e)
    then have "ruleFromArgs (store_value st) (firstVal_value st fv) ags (accessTo_value st acc)
        = Inl e"
      using rv(1) by simp
    then show ?thesis
      using r Inl by (simp add: hasRule_h_def hasRule_def)
  next
    case (Inr rule)
    have rules1: "this_rules st1 = this_rules st"
      using g by (simp add: grows_def)
    have stored: "\<forall>r \<in> set (Object_values (this_rules st)). allocated st1 r"
      using assms g by (auto simp: well_formed_def allocated_def grows_def)
    have query: "\<forall>f \<in> set [rule]. allocated st1 f"
      using rv(2) Inr by simp
    have vals: "map (rule_value st1) (Object_values (this_rules st))
        = map (rule_value st) (Object_values (this_rules st))"
      using assms by (intro grows_map_rule_value[OF g]) (simp add: well_formed_def allocated_def)
    have "fst (hasRule_for_h (Object_values (this_rules st)) [rule] st1)
        = hasRule_for (map (rule_value st1) (Object_values (this_rules st))) (map (rule_value st1) [rule])"
      by (rule hasRule_for_h_value[OF query stored])
    moreover have "ruleFromArgs (store_value st) (firstVal_value st fv) ags (accessTo_value st acc)
        = Inr (rule_value st1 rule)"
      using rv(1) Inr by simp
    moreover have "fst (hasRule_h fv ags acc st)
        = Inr (fst (hasRule_for_h (Object_values (this_rules st)) [rule] st1))"
      using r Inr by (simp add: hasRule_h_def rules1 split: prod.splits)
    ultimately show ?thesis
      by (simp add: hasRule_def vals store_value_rules)
  qed
qed

lemma aggregates_h_value:
  "fst (getPermissionsFor_h ags st) = getPermissionsFor (store_value st) ags"
  "fst (getAgentsWith_h perms st) = getAgentsWith (store_value st) perms"
  by (simp_all add: getPermissionsFor_h_def getPermissionsFor_def getAgentsWith_h_def
      getAgentsWith_def store_value_rules filter_map comp_def rule_value_def)


lemma queries_frame:
  assumes "well_formed st"
  shows "store_value (snd (hasRule_h fv ags acc st)) = store_value st"
    and "store_value (snd (getPermissionsFor_h ags' st)) = store_value st"
    and "store_value (snd (getAgentsWith_h perms st)) = store_value st"
  using assms grows_store_value[OF hasRule_h_grows]
  by (simp_all add: getPermissionsFor_h_def getAgentsWith_h_def)

lemmas heap_eval =
  hasRule_h_def ruleFromArgs_h_def AclRule_from_h_def clone_h_def AclRule_new_h_def
  getOptions_h_def getDefaultAccessTo_h_def Object_values_def hasRule_while_h.simps
  subtract_h_def hasNoEffect_h_def Agents_subtract_def Permissions_subtract_def
  Agents_common_def Permissions_isEmpty_def Agents_isEmpty_def Let_def

text \<open>\<^verbatim>\<open>deleteAgents\<close> for the agent A on a document with the default target \<open>d\<close>
  whose only rule grants \<^verbatim>\<open>READ\<close> to A: nothing is left of the rule, and its entry
  is removed.\<close>

lemma deleteAgents_removes:
  "deleteAgents
     \<lparr>defaultAccessTo = Some ''doc'',
      rules = [(''s1'', \<lparr>permissions = {Read}, agents = {WebId ''A''}, accessTo = targets,
                         otherQuads = [], default = None, defaultForNew = None\<rparr>)]\<rparr>
     {WebId ''A''}
   = Some (Inr \<lparr>defaultAccessTo = Some ''doc'', rules = ([] :: unit AclRule object)\<rparr>)"
proof -
  let ?prev = "\<lparr>permissions = {Read}, agents = {WebId ''A''}, accessTo = targets,
                 otherQuads = [], default = None, defaultForNew = None\<rparr> :: unit AclRule"
  let ?doc = "\<lparr>defaultAccessTo = Some ''doc'', rules = [(''s1'', ?prev)]\<rparr>"
  let ?toDelete = "AclRule_new Permissions_ALL {WebId ''A''} (Some (Label ''doc'')) None
                     :: unit AclRule"
  have toDelete: "ruleFromArgs ?doc (IsRule (AclRule_new Permissions_ALL {WebId ''A''} None None))
      {} None = Inr ?toDelete"
    by (simp add: ruleFromArgs_def AclRule_from_def clone_def AclRule_new_def getOptions_def
        getDefaultAccessTo_def Let_def)
  have fragments: "subtract ?prev ?toDelete = []"
    by (simp add: rule_eval Permissions_ALL_def)
  show ?thesis
    unfolding deleteAgents_def deleteRule_def toDelete
    by (simp add: Object_keys_def store_eval fragments)
qed

text \<open>
  C9, as stated, at the state whose only rule grants \<^verbatim>\<open>READ\<close> to the agent A:
  \<^verbatim>\<open>deleteAgents\<close> for A returns and leaves a document without rules, and
  \<^verbatim>\<open>deleteAgents\<close> is none of the five operations that the claim allows to modify the
  mapping.
\<close>

theorem deleteAgents_modifies_mapping_counterexample:
  "store_value granted_state
     = \<lparr>defaultAccessTo = Some ''doc'',
        rules = [(''s1'', AclRule_new {Read} {WebId ''A''} (Some (Label ''doc'')) None)]\<rparr>
   \<and> store_after (DeleteAgents {WebId ''A''}) granted_state
       = Some (Inr \<lparr>defaultAccessTo = Some ''doc'', rules = []\<rparr>)
   \<and> deleteAgents (store_value granted_state) {WebId ''A''}
       = Some (Inr \<lparr>defaultAccessTo = Some ''doc'', rules = []\<rparr>)
   \<and> \<lparr>defaultAccessTo = Some ''doc'', rules = []\<rparr> \<noteq> store_value granted_state
   \<and> \<not> listed_mutation (DeleteAgents {WebId ''A''} :: unit call)"
proof -
  have stored: "store_value granted_state
     = \<lparr>defaultAccessTo = Some ''doc'',
        rules = [(''s1'', \<lparr>permissions = {Read}, agents = {WebId ''A''}, accessTo = [''doc''],
                           otherQuads = [], default = None, defaultForNew = None\<rparr>)]\<rparr>"
    by (simp add: store_value_def granted_state_def rule_value_def)
  have before: "store_value granted_state
     = \<lparr>defaultAccessTo = Some ''doc'',
        rules = [(''s1'', AclRule_new {Read} {WebId ''A''} (Some (Label ''doc'')) None)]\<rparr>"
    by (simp add: stored AclRule_new_def)
  have removed: "deleteAgents (store_value granted_state) {WebId ''A''}
       = Some (Inr \<lparr>defaultAccessTo = Some ''doc'', rules = []\<rparr>)"
    by (simp only: stored deleteAgents_removes)
  have after: "store_after (DeleteAgents {WebId ''A''}) granted_state
       = Some (Inr \<lparr>defaultAccessTo = Some ''doc'', rules = []\<rparr>)"
    using removed by simp
  have other: "\<lparr>defaultAccessTo = Some ''doc'', rules = []\<rparr> \<noteq> store_value granted_state"
    by (simp add: stored)
  have unlisted: "\<not> listed_mutation (DeleteAgents {WebId ''A''} :: unit call)"
    by simp
  show ?thesis
    by (intro conjI before after removed other unlisted)
qed

text \<open>
  C9, amended. In a well-formed state, \<^verbatim>\<open>hasRule\<close>, \<^verbatim>\<open>getPermissionsFor\<close> and
  \<^verbatim>\<open>getAgentsWith\<close> leave the document as it was: the default target, every key, and
  every field of every stored rule, the elements of its \<^verbatim>\<open>accessTo\<close> array included.
  And a call that returns and leaves another document is a call of \<^verbatim>\<open>addRule\<close>,
  \<^verbatim>\<open>deleteRule\<close>, \<^verbatim>\<open>deleteBySubject\<close>, \<^verbatim>\<open>deletePermissions\<close> or \<^verbatim>\<open>getMinifiedRules\<close>, or
  a call of \<^verbatim>\<open>deleteAgents\<close>.
\<close>

theorem queries_leave_store_unchanged:
  assumes "well_formed st"
  shows "store_value (snd (hasRule_h fv ags acc st)) = store_value st
       \<and> store_value (snd (getPermissionsFor_h ags st)) = store_value st
       \<and> store_value (snd (getAgentsWith_h perms st)) = store_value st
       \<and> (\<forall>this'. store_after c st = Some (Inr this') \<and> this' \<noteq> store_value st \<longrightarrow>
             listed_mutation c \<or> (\<exists>ags'. c = DeleteAgents ags'))"
proof -
  have only: "\<forall>this'. store_after c st = Some (Inr this') \<and> this' \<noteq> store_value st \<longrightarrow>
             listed_mutation c \<or> (\<exists>ags'. c = DeleteAgents ags')"
  proof (cases c)
    case (HasRule fv' ags' acc')
    then show ?thesis
      using queries_frame(1)[OF assms, of fv' ags' acc']
      by (auto split: prod.splits sum.splits)
  next
    case (GetPermissionsFor ags')
    then show ?thesis
      using queries_frame(2)[OF assms, of ags']
      by (auto split: prod.splits sum.splits)
  next
    case (GetAgentsWith perms')
    then show ?thesis
      using queries_frame(3)[OF assms, of perms']
      by (auto split: prod.splits sum.splits)
  qed simp_all
  show ?thesis
    using queries_frame[OF assms] only by blast
qed

text \<open>
  C9, amended, at the state whose only stored rule has an empty array of targets. A
  query that passes the stored rule object itself pushes the default target onto the
  array of the copy it makes, three arrays are allocated, and the stored rule still has
  no target; the document that the query leaves is the one before. \<^verbatim>\<open>deleteAgents\<close> for
  the agent of the rule returns and leaves another document.
\<close>

theorem queries_leave_store_unchanged_witness:
  "well_formed aliased_state
   \<and> hasRule_h (IsRule_h aliased_rule) {} None aliased_state
       = (Inr True, aliased_state\<lparr>arrays := [[], [''doc''], [''doc''], [''doc'']]\<rparr>)
   \<and> store_value (snd (hasRule_h (IsRule_h aliased_rule) {} None aliased_state))
       = store_value aliased_state
   \<and> accessTo (rule_value (snd (hasRule_h (IsRule_h aliased_rule) {} None aliased_state))
                 aliased_rule) = []
   \<and> store_after (HasRule (IsRule_h aliased_rule) {} None) aliased_state
       = Some (Inr (store_value aliased_state))
   \<and> store_after (DeleteAgents {WebId ''A''}) aliased_state
       = Some (Inr \<lparr>defaultAccessTo = Some ''doc'', rules = []\<rparr>)
   \<and> \<lparr>defaultAccessTo = Some ''doc'', rules = []\<rparr> \<noteq> store_value aliased_state"
proof -
  have wf: "well_formed aliased_state"
    by (simp add: well_formed_def aliased_state_def aliased_rule_def Object_values_def)
  have run: "hasRule_h (IsRule_h aliased_rule) {} None aliased_state
       = (Inr True, aliased_state\<lparr>arrays := [[], [''doc''], [''doc''], [''doc'']]\<rparr>)"
    by (simp add: heap_eval aliased_state_def aliased_rule_def)
  note frame = queries_leave_store_unchanged[OF wf, of "IsRule_h aliased_rule" "{}" None
      "{}" "HasRule (IsRule_h aliased_rule) {} None"]
  have same: "store_value (snd (hasRule_h (IsRule_h aliased_rule) {} None aliased_state))
       = store_value aliased_state"
    using frame by blast
  have "accessTo (rule_value (aliased_state\<lparr>arrays := [[], [''doc''], [''doc''], [''doc'']]\<rparr>)
                 aliased_rule) = []"
    by (simp add: rule_value_def aliased_rule_def)
  then have untouched: "accessTo (rule_value
      (snd (hasRule_h (IsRule_h aliased_rule) {} None aliased_state)) aliased_rule) = []"
    using run by simp
  obtain left where left: "store_after (HasRule (IsRule_h aliased_rule) {} None) aliased_state
      = Some (Inr left)"
    using run by simp
  have "\<not> (listed_mutation (HasRule (IsRule_h aliased_rule) {} None :: unit call)
      \<or> (\<exists>ags'. (HasRule (IsRule_h aliased_rule) {} None :: unit call) = DeleteAgents ags'))"
    by simp
  then have "left = store_value aliased_state"
    using frame left by blast
  then have query: "store_after (HasRule (IsRule_h aliased_rule) {} None) aliased_state
       = Some (Inr (store_value aliased_state))"
    using left by simp
  have stored: "store_value aliased_state
     = \<lparr>defaultAccessTo = Some ''doc'',
        rules = [(''s1'', \<lparr>permissions = {Read}, agents = {WebId ''A''}, accessTo = [],
                           otherQuads = [], default = None, defaultForNew = None\<rparr>)]\<rparr>"
    by (simp add: store_value_def aliased_state_def aliased_rule_def rule_value_def)
  have "deleteAgents (store_value aliased_state) {WebId ''A''}
       = Some (Inr \<lparr>defaultAccessTo = Some ''doc'', rules = []\<rparr>)"
    by (simp only: stored deleteAgents_removes)
  then have removed: "store_after (DeleteAgents {WebId ''A''}) aliased_state
       = Some (Inr \<lparr>defaultAccessTo = Some ''doc'', rules = []\<rparr>)"
    by simp
  have other: "\<lparr>defaultAccessTo = Some ''doc'', rules = []\<rparr> \<noteq> store_value aliased_state"
    by (simp add: stored)
  show ?thesis
    by (intro conjI wf run same untouched query removed other)
qed

end
